theory Spec2Isabelle
  imports Complex_Main
begin

section \<open>Machine integers\<close>

text \<open>
  The sources compute with \<open>unsigned int\<close> and \<open>int\<close>. Both are taken to be 32 bits wide
  (\<open>sizeof(unsigned int) = 4\<close>), two's complement. An \<open>unsigned int\<close> value is a \<open>nat\<close>
  below \<open>2 ^ 32\<close>; where the source subtracts or adds on \<open>unsigned int\<close> the wrap-around is
  written out. The square root that the grid builders take of an oscillator count is the one
  of the reals: on the values of an \<open>unsigned int\<close> the square root of a \<open>double\<close> is a whole
  number exactly when the real one is.
\<close>

definition sizeof_unsigned_int :: nat where
  "sizeof_unsigned_int = 4"

definition to_unsigned :: "int \<Rightarrow> nat" where
  \<comment> \<open>the value as an \<open>unsigned int\<close>: reduction modulo \<open>2 ^ 32\<close>\<close>
  "to_unsigned x = nat (x mod 2 ^ 32)"

definition to_signed :: "nat \<Rightarrow> int" where
  \<comment> \<open>an \<open>unsigned int\<close> value stored into an \<open>int\<close>\<close>
  "to_signed u = (if u mod 2 ^ 32 < 2 ^ 31 then int (u mod 2 ^ 32) else int (u mod 2 ^ 32) - 2 ^ 32)"

definition uadd :: "nat \<Rightarrow> nat \<Rightarrow> nat" where
  \<comment> \<open>\<open>a + b\<close> on \<open>unsigned int\<close>\<close>
  "uadd a b = to_unsigned (int a + int b)"

definition usub :: "nat \<Rightarrow> nat \<Rightarrow> nat" where
  \<comment> \<open>\<open>a - b\<close> on \<open>unsigned int\<close>\<close>
  "usub a b = to_unsigned (int a - int b)"

section \<open>The network: network.cpp\<close>

datatype error =
    InvalidTopology    \<comment> \<open>\<open>std::runtime_error("Unknown type of connection")\<close>\<close>
  | InvalidGridSize    \<comment> \<open>\<open>std::runtime_error("Invalid number of oscillators in the network for the grid structure")\<close>\<close>
  | IndexOutOfRange    \<comment> \<open>edge access beyond the oscillator count\<close>
  | DivisionByZero     \<comment> \<open>a quotient whose divisor is zero\<close>

datatype conn_type = NONE | ALL_TO_ALL | GRID_FOUR | GRID_EIGHT | LIST_BIDIR
  | CONN_OTHER  \<comment> \<open>any other value of the enumeration: the \<open>default\<close> branch of \<open>create_structure\<close>\<close>

datatype conn_repr_type = MATRIX_CONN_REPRESENTATION | BITMAP_CONN_REPRESENTATION

text \<open>
  \<open>osc_conn\<close> holds the rows as the constructor allocates them. The accessors
  \<open>set_connection\<close> and \<open>get_connection\<close> are declared in \<open>network.h\<close>, which is not among the
  sources; they are modelled from the specification, which makes them independent of the
  representation, on a relation \<open>connections\<close> of directed edges kept beside the rows.
\<close>

record network =
  num_osc :: nat
  conn_representation :: conn_repr_type
  osc_conn :: "nat list list"
  connections :: "(nat \<times> nat) set"

definition set_connection :: "nat \<Rightarrow> nat \<Rightarrow> 'a network_scheme \<Rightarrow> error + 'a network_scheme" where
  \<comment> \<open>Modelled from the spec: \<open>network::set_connection\<close> of \<open>network.h\<close>. It marks the directed
      edge from \<open>index1\<close> to \<open>index2\<close> and fails with \<open>IndexOutOfRange\<close> when an index is not below
      the oscillator count.\<close>
  "set_connection index1 index2 net =
     (if index1 < num_osc net \<and> index2 < num_osc net
      then Inr (net\<lparr>connections := insert (index1, index2) (connections net)\<rparr>)
      else Inl IndexOutOfRange)"

definition get_connection :: "'a network_scheme \<Rightarrow> nat \<Rightarrow> nat \<Rightarrow> error + bool" where
  \<comment> \<open>Modelled from the spec: \<open>network::get_connection\<close> of \<open>network.h\<close>. It tells whether the
      directed edge exists (the sources test its result with \<open>> 0\<close>), and fails with
      \<open>IndexOutOfRange\<close> as \<open>set_connection\<close> does.\<close>
  "get_connection net index1 index2 =
     (if index1 < num_osc net \<and> index2 < num_osc net
      then Inr ((index1, index2) \<in> connections net)
      else Inl IndexOutOfRange)"

definition and_then :: "error + 'a \<Rightarrow> ('a \<Rightarrow> error + 'b) \<Rightarrow> error + 'b" where
  \<comment> \<open>sequencing of two statements: an exception of the first one leaves the function\<close>
  "and_then m f = (case m of Inl e \<Rightarrow> Inl e | Inr x \<Rightarrow> f x)"

fun for_each :: "nat list \<Rightarrow> (nat \<Rightarrow> 's \<Rightarrow> error + 's) \<Rightarrow> 's \<Rightarrow> error + 's" where
  \<comment> \<open>\<open>for (unsigned int index = a; index < b; index++) body\<close> is \<open>for_each [a..<b] body\<close>\<close>
  "for_each [] body s = Inr s"
| "for_each (index # rest) body s = and_then (body index s) (for_each rest body)"

definition create_none_connections :: "'a network_scheme \<Rightarrow> error + 'a network_scheme" where
  "create_none_connections net = Inr net"

definition create_all_to_all_connections :: "'a network_scheme \<Rightarrow> error + 'a network_scheme" where
  "create_all_to_all_connections net =
     for_each [0..<num_osc net] (\<lambda>row.
       for_each [row + 1..<num_osc net] (\<lambda>col net.
         and_then (set_connection row col net) (set_connection col row))) net"

definition list_bidir_step :: "nat \<Rightarrow> 'a network_scheme \<Rightarrow> error + 'a network_scheme" where
  \<comment> \<open>the body of the loop of \<open>create_list_bidir_connections\<close>\<close>
  "list_bidir_step index net =
     and_then (if index > 0 then set_connection index (usub index 1) net else Inr net) (\<lambda>net.
       if index < usub (num_osc net) 1 then set_connection index (uadd index 1) net else Inr net)"

definition create_list_bidir_connections :: "'a network_scheme \<Rightarrow> error + 'a network_scheme" where
  \<comment> \<open>the loop starts at index 1, as in the source\<close>
  "create_list_bidir_connections net = for_each [1..<num_osc net] list_bidir_step net"

definition grid_four_step :: "nat \<Rightarrow> nat \<Rightarrow> 'a network_scheme \<Rightarrow> error + 'a network_scheme" where
  \<comment> \<open>the body of the loop of \<open>create_grid_four_connections\<close>. The four neighbour indices are
      \<open>int\<close>s initialised from \<open>unsigned int\<close> expressions; a comparison or a division of an
      \<open>int\<close> with an \<open>unsigned int\<close> converts the \<open>int\<close> to \<open>unsigned int\<close>; \<open>std::ceil\<close> is
      applied to a quotient of integers, which it leaves as it is.\<close>
  "grid_four_step side_size index net =
     (let upper_index = to_signed (usub index side_size);
          lower_index = to_signed (uadd index side_size);
          left_index = to_signed (usub index 1);
          right_index = to_signed (uadd index 1);
          node_row_index = index div side_size
      in
      and_then (if upper_index \<ge> 0
                then set_connection index (to_unsigned upper_index) net else Inr net) (\<lambda>net.
      and_then (if to_unsigned lower_index < num_osc net
                then set_connection index (to_unsigned lower_index) net else Inr net) (\<lambda>net.
      and_then (if left_index \<ge> 0 \<and> to_unsigned left_index div side_size = node_row_index
                then set_connection index (to_unsigned left_index) net else Inr net) (\<lambda>net.
      if to_unsigned right_index < num_osc net
           \<and> to_unsigned right_index div side_size = node_row_index
      then set_connection index (to_unsigned right_index) net else Inr net))))"

definition create_grid_four_connections :: "'a network_scheme \<Rightarrow> error + 'a network_scheme" where
  "create_grid_four_connections net =
     (let conv_side_size = sqrt (real (num_osc net)) in
      if conv_side_size - of_int \<lfloor>conv_side_size\<rfloor> > 0 then Inl InvalidGridSize
      else
        let side_size = nat \<lfloor>conv_side_size\<rfloor>
        in for_each [0..<num_osc net] (grid_four_step side_size) net)"

definition grid_eight_step :: "nat \<Rightarrow> nat \<Rightarrow> 'a network_scheme \<Rightarrow> error + 'a network_scheme" where
  \<comment> \<open>the body of the second loop of \<open>create_grid_eight_connections\<close>: everything is
      \<open>unsigned int\<close>, so the tests \<open>upper_left_index >= 0\<close> and \<open>upper_right_index >= 0\<close> hold
      always; \<open>std::floor\<close> is applied to a quotient of integers\<close>
  "grid_eight_step side_size index net =
     (let upper_left_index = usub (usub index side_size) 1;
          upper_right_index = uadd (usub index side_size) 1;
          lower_left_index = usub (uadd index side_size) 1;
          lower_right_index = uadd (uadd index side_size) 1;
          node_row_index = index div side_size;
          upper_row_index = usub node_row_index 1;
          lower_row_index = uadd node_row_index 1
      in
      and_then (if upper_left_index div side_size = upper_row_index
                then set_connection index upper_left_index net else Inr net) (\<lambda>net.
      and_then (if upper_right_index div side_size = upper_row_index
                then set_connection index upper_right_index net else Inr net) (\<lambda>net.
      and_then (if lower_left_index < num_osc net \<and> lower_left_index div side_size = lower_row_index
                then set_connection index lower_left_index net else Inr net) (\<lambda>net.
      if lower_right_index < num_osc net \<and> lower_right_index div side_size = lower_row_index
      then set_connection index lower_right_index net else Inr net))))"

definition create_grid_eight_connections :: "'a network_scheme \<Rightarrow> error + 'a network_scheme" where
  "create_grid_eight_connections net =
     and_then (create_grid_four_connections net) (\<lambda>net.
       let side_size = nat \<lfloor>sqrt (real (num_osc net))\<rfloor>
       in for_each [0..<num_osc net] (grid_eight_step side_size) net)"

fun create_structure :: "conn_type \<Rightarrow> 'a network_scheme \<Rightarrow> error + 'a network_scheme" where
  "create_structure NONE net = create_none_connections net"
| "create_structure ALL_TO_ALL net = create_all_to_all_connections net"
| "create_structure GRID_FOUR net = create_grid_four_connections net"
| "create_structure GRID_EIGHT net = create_grid_eight_connections net"
| "create_structure LIST_BIDIR net = create_list_bidir_connections net"
| "create_structure CONN_OTHER net = Inl InvalidTopology"

definition number_elements :: "nat \<Rightarrow> nat \<Rightarrow> nat" where
  \<comment> \<open>the length of a row, as the constructor computes it; the first argument is the constant
      \<open>MAXIMUM_OSCILLATORS_MATRIX_REPRESENTATION\<close> of \<open>network.h\<close>. The quotient is one of
      integers, so that \<open>std::ceil\<close> receives a whole number.\<close>
  "number_elements maximum_oscillators_matrix_representation number_oscillators =
     (if number_oscillators > maximum_oscillators_matrix_representation
      then number_oscillators div sizeof_unsigned_int
      else number_oscillators)"

definition network_alloc :: "nat \<Rightarrow> nat \<Rightarrow> network" where
  \<comment> \<open>the constructor up to its call of \<open>create_structure\<close>\<close>
  "network_alloc maximum_oscillators_matrix_representation number_oscillators =
     \<lparr> num_osc = number_oscillators,
       conn_representation =
         (if number_oscillators > maximum_oscillators_matrix_representation
          then BITMAP_CONN_REPRESENTATION else MATRIX_CONN_REPRESENTATION),
       osc_conn = replicate number_oscillators
         (replicate (number_elements maximum_oscillators_matrix_representation number_oscillators) 0),
       connections = {} \<rparr>"

definition network_ctor :: "nat \<Rightarrow> nat \<Rightarrow> conn_type \<Rightarrow> error + network" where
  "network_ctor maximum_oscillators_matrix_representation number_oscillators connection_type =
     create_structure connection_type
       (network_alloc maximum_oscillators_matrix_representation number_oscillators)"

fun get_neighbors_loop :: "'a network_scheme \<Rightarrow> nat \<Rightarrow> nat list \<Rightarrow> nat list \<Rightarrow> error + nat list" where
  "get_neighbors_loop net index [] result = Inr result"
| "get_neighbors_loop net index (index_neighbour # rest) result =
     and_then (get_connection net index index_neighbour) (\<lambda>c.
       get_neighbors_loop net index rest (if c then result @ [index_neighbour] else result))"

definition get_neighbors :: "'a network_scheme \<Rightarrow> nat \<Rightarrow> error + nat list" where
  "get_neighbors net index = get_neighbors_loop net index [0..<num_osc net] []"


section \<open>The clustering network: syncnet.cpp\<close>

text \<open>
  The arithmetic of \<open>double\<close> is a parameter of the model of the radius-based builder: a
  value of the type \<open>'d\<close> is a \<open>double\<close> (finite, infinite or not a number), and the record
  gives the constants and the operations the source uses on it, with whatever rounding,
  overflow and underflow they have. What is proved of the builder for every such record holds
  of the arithmetic of the machine. \<open>real_arith\<close> is the exact arithmetic of the reals: it is
  used where a computed value is stated, on inputs that \<open>double\<close> represents.
\<close>

record 'd arith =
  d_zero :: 'd    \<comment> \<open>the literal \<open>0\<close>\<close>
  d_one :: 'd     \<comment> \<open>the literal \<open>1\<close>\<close>
  d_max :: 'd     \<comment> \<open>\<open>std::numeric_limits<double>::max()\<close>\<close>
  d_add :: "'d \<Rightarrow> 'd \<Rightarrow> 'd"
  d_sub :: "'d \<Rightarrow> 'd \<Rightarrow> 'd"
  d_mul :: "'d \<Rightarrow> 'd \<Rightarrow> 'd"
  d_div :: "'d \<Rightarrow> 'd \<Rightarrow> 'd"
  d_le :: "'d \<Rightarrow> 'd \<Rightarrow> bool"    \<comment> \<open>\<open>a <= b\<close>\<close>
  d_lt :: "'d \<Rightarrow> 'd \<Rightarrow> bool"    \<comment> \<open>\<open>a < b\<close>; \<open>a > b\<close> is \<open>b < a\<close>\<close>
  d_eq :: "'d \<Rightarrow> 'd \<Rightarrow> bool"    \<comment> \<open>\<open>a == b\<close>; \<open>a != b\<close> is its negation\<close>

definition DBL_MAX :: real where
  \<comment> \<open>\<open>std::numeric_limits<double>::max()\<close>\<close>
  "DBL_MAX = (2 ^ 53 - 1) * 2 ^ 971"

definition real_arith :: "real arith" where
  "real_arith =
     \<lparr> d_zero = 0, d_one = 1, d_max = DBL_MAX,
       d_add = (+), d_sub = (-), d_mul = (*), d_div = (/),
       d_le = (\<le>), d_lt = (<), d_eq = (=) \<rparr>"

text \<open>
  \<open>syncnet\<close> derives from \<open>sync_network\<close>, which derives from \<open>network\<close>. The class
  \<open>sync_network\<close> is not among the sources: of its members the code below reads the phases of
  the oscillators (\<open>oscillators\<close>) and the coupling strength (\<open>weight\<close>).
\<close>

record 'd syncnet = network +
  weight :: 'd
  oscillators :: "'d list"
  oscillator_locations :: "'d list list"
  distance_conn_weights :: "'d list list option"

definition euclidean_distance_sqrt :: "'d arith \<Rightarrow> 'd list \<Rightarrow> 'd list \<Rightarrow> 'd" where
  \<comment> \<open>Modelled from the spec: \<open>euclidean_distance_sqrt\<close> of \<open>support.h\<close>, the squared Euclidean
      distance of two points: the squares of the differences of the coordinates, added up from
      0 in the arithmetic of \<open>double\<close>.\<close>
  "euclidean_distance_sqrt ar a b =
     foldl (\<lambda>distance (x, y). d_add ar distance (d_mul ar (d_sub ar x y) (d_sub ar x y)))
       (d_zero ar) (zip a b)"

definition set_weight ::
  "nat \<Rightarrow> nat \<Rightarrow> 'd \<Rightarrow> ('d, 'a) syncnet_scheme \<Rightarrow> ('d, 'a) syncnet_scheme" where
  \<comment> \<open>\<open>(*distance_conn_weights)[i][j] = value\<close>; the pointer is not null where the source
      does this\<close>
  "set_weight i j v net =
     net\<lparr>distance_conn_weights :=
       map_option (\<lambda>w. w[i := (w ! i)[j := v]]) (distance_conn_weights net)\<rparr>"

definition get_weight :: "(real, 'a) syncnet_scheme \<Rightarrow> nat \<Rightarrow> nat \<Rightarrow> real" where
  \<comment> \<open>\<open>(*distance_conn_weights)[i][j]\<close>, read in \<open>phase_kuramoto\<close> where the pointer is not
      null\<close>
  "get_weight net i j = (case distance_conn_weights net of Some w \<Rightarrow> w ! i ! j | None \<Rightarrow> 0)"

definition connect_step ::
  "'d arith \<Rightarrow> 'd \<Rightarrow> bool \<Rightarrow> nat \<Rightarrow> nat \<Rightarrow> ('d, 'a) syncnet_scheme \<times> 'd
     \<Rightarrow> error + ('d, 'a) syncnet_scheme \<times> 'd" where
  \<comment> \<open>the body of the inner loop of the first pair of loops of \<open>create_connections\<close>; the state is
      the network with the local \<open>maximum_distance\<close>. The test of the edge compares the two
      \<open>double\<close>s that the source compares: the distance computed and the product computed. The
      second test on \<open>maximum_distance\<close> compares with \<open>maximum_distance\<close> and assigns to it, as
      the source does; \<open>minimum_distance\<close> is never assigned.\<close>
  "connect_step ar sqrt_connectivity_radius enable_conn_weight i j st =
     (case st of (net, maximum_distance) \<Rightarrow>
       let distance =
             euclidean_distance_sqrt ar (oscillator_locations net ! i) (oscillator_locations net ! j)
       in
       and_then (if d_le ar distance sqrt_connectivity_radius
                 then and_then (set_connection j i net) (set_connection i j) else Inr net) (\<lambda>net.
         if enable_conn_weight then
           let net = set_weight j i distance (set_weight i j distance net);
               maximum_distance =
                 (if d_lt ar maximum_distance distance then distance else maximum_distance);
               maximum_distance =
                 (if d_lt ar distance maximum_distance then distance else maximum_distance)
           in Inr (net, maximum_distance)
         else Inr (net, maximum_distance)))"

definition normalize_step ::
  "'d arith \<Rightarrow> 'd \<Rightarrow> 'd \<Rightarrow> nat \<Rightarrow> nat \<Rightarrow> ('d, 'a) syncnet_scheme \<Rightarrow> error + ('d, 'a) syncnet_scheme" where
  \<comment> \<open>the body of the inner loop of the second pair of loops of \<open>create_connections\<close>, which
      run with the weight matrix allocated\<close>
  "normalize_step ar subtractor multiplier i j net =
     (case distance_conn_weights net of
        None \<Rightarrow> Inr net
      | Some w \<Rightarrow>
          let value_weight = d_div ar (d_sub ar (w ! i ! j) subtractor) multiplier
          in Inr (set_weight j i value_weight (set_weight i j value_weight net)))"

definition create_connections ::
  "'d arith \<Rightarrow> 'd \<Rightarrow> bool \<Rightarrow> ('d, 'a) syncnet_scheme \<Rightarrow> error + ('d, 'a) syncnet_scheme" where
  "create_connections ar connectivity_radius enable_conn_weight net =
     (let sqrt_connectivity_radius = d_mul ar connectivity_radius connectivity_radius;
          net = net\<lparr>distance_conn_weights :=
                  (if enable_conn_weight
                   then Some (replicate (num_osc net) (replicate (num_osc net) (d_zero ar)))
                   else None)\<rparr>;
          maximum_distance = d_zero ar;
          minimum_distance = d_max ar
      in
      and_then
        (for_each [0..<num_osc net] (\<lambda>i.
           for_each [i + 1..<num_osc net]
             (connect_step ar sqrt_connectivity_radius enable_conn_weight i))
           (net, maximum_distance))
        (\<lambda>(net, maximum_distance).
           if enable_conn_weight then
             let (multiplier, subtractor) =
                   (if \<not> d_eq ar maximum_distance minimum_distance
                    then (d_sub ar maximum_distance minimum_distance, minimum_distance)
                    else (d_one ar, d_zero ar))
             in for_each [0..<num_osc net] (\<lambda>i.
                  for_each [i + 1..<num_osc net] (normalize_step ar subtractor multiplier i)) net
           else Inr net))"

definition syncnet_ctor ::
  "'d arith \<Rightarrow> nat \<Rightarrow> 'd list list \<Rightarrow> 'd \<Rightarrow> bool \<Rightarrow> 'd list \<Rightarrow> error + 'd syncnet" where
  \<comment> \<open>the constructor: the base class is built on \<open>input_data->size()\<close> oscillators with the
      connection type \<open>NONE\<close>, coupling strength 1 and random phases, which are the last
      argument here; the second argument is \<open>MAXIMUM_OSCILLATORS_MATRIX_REPRESENTATION\<close>\<close>
  "syncnet_ctor ar maximum_oscillators_matrix_representation input_data connectivity_radius
       enable_conn_weight phases =
     and_then (network_ctor maximum_oscillators_matrix_representation (length input_data) NONE)
       (\<lambda>base. create_connections ar connectivity_radius enable_conn_weight
          (network.extend base
             \<lparr> weight = d_one ar, oscillators = phases, oscillator_locations = input_data,
               distance_conn_weights = None \<rparr>))"

text \<open>
  The phase derivative is modelled in the exact arithmetic of the reals. The quotient by the
  number of neighbours is the one place where the source guards a divisor: a quotient by
  zero, which in \<open>double\<close> is infinite or not a number, is the error \<open>DivisionByZero\<close>.
\<close>

definition divide_by_count :: "real \<Rightarrow> nat \<Rightarrow> error + real" where
  \<comment> \<open>\<open>x / n\<close> for a \<open>double\<close> \<open>x\<close> and an \<open>unsigned int\<close> \<open>n\<close>\<close>
  "divide_by_count x n = (if n = 0 then Inl DivisionByZero else Inr (x / real n))"

definition kuramoto_step ::
  "bool \<Rightarrow> nat \<Rightarrow> real \<Rightarrow> nat \<Rightarrow> (real, 'a) syncnet_scheme \<times> real \<times> nat
     \<Rightarrow> error + (real, 'a) syncnet_scheme \<times> real \<times> nat" where
  \<comment> \<open>the body of either loop of \<open>phase_kuramoto\<close>: the first one (\<open>weighted\<close>) multiplies by
      the stored weight. The state is the network with the locals \<open>phase\<close> and
      \<open>num_neighbors\<close>.\<close>
  "kuramoto_step weighted index teta k st =
     (case st of (net, phase, num_neighbors) \<Rightarrow>
       and_then (get_connection net index k) (\<lambda>c.
         if c then
           Inr (net,
                phase + (if weighted then get_weight net index k * sin (oscillators net ! k - teta)
                         else sin (oscillators net ! k - teta)),
                num_neighbors + 1)
         else Inr (net, phase, num_neighbors)))"

definition phase_kuramoto ::
  "(real, 'a) syncnet_scheme \<Rightarrow> real \<Rightarrow> real \<Rightarrow> nat \<Rightarrow> error + real \<times> (real, 'a) syncnet_scheme" where
  \<comment> \<open>the result is the returned value with the network as the call leaves it; \<open>index\<close> is
      \<open>argv[1]\<close>\<close>
  "phase_kuramoto net t teta index =
     and_then
       (for_each [0..<num_osc net]
          (kuramoto_step (distance_conn_weights net \<noteq> None) index teta) (net, 0, 0))
       (\<lambda>(net, phase, num_neighbors).
          let num_neighbors = (if num_neighbors = 0 then 1 else num_neighbors)
          in and_then (divide_by_count (phase * weight net) num_neighbors) (\<lambda>phase.
               Inr (phase, net)))"

section \<open>Notions used in the statements and their proofs\<close>

definition neighbours :: "'a network_scheme \<Rightarrow> nat \<Rightarrow> nat list" where
  \<comment> \<open>the indices \<open>get_neighbors\<close> collects, in ascending order\<close>
  "neighbours net index = filter (\<lambda>k. (index, k) \<in> connections net) [0..<num_osc net]"

definition edge_weight :: "(real, 'a) syncnet_scheme \<Rightarrow> nat \<Rightarrow> nat \<Rightarrow> real" where
  \<comment> \<open>the weight of an edge: the stored one, or 1 when there is no weight matrix\<close>
  "edge_weight net i k = (case distance_conn_weights net of Some w \<Rightarrow> w ! i ! k | None \<Rightarrow> 1)"

definition grid_four_targets :: "nat \<Rightarrow> nat \<Rightarrow> nat \<Rightarrow> nat set" where
  \<comment> \<open>the indices that one run of the body of \<open>create_grid_four_connections\<close> connects
      \<open>index\<close> to, with the tests as the source writes them\<close>
  "grid_four_targets side_size n index =
     {j. (to_signed (usub index side_size) \<ge> 0 \<and> j = to_unsigned (to_signed (usub index side_size)))
       \<or> (to_unsigned (to_signed (uadd index side_size)) < n
            \<and> j = to_unsigned (to_signed (uadd index side_size)))
       \<or> (to_signed (usub index 1) \<ge> 0
            \<and> to_unsigned (to_signed (usub index 1)) div side_size = index div side_size
            \<and> j = to_unsigned (to_signed (usub index 1)))
       \<or> (to_unsigned (to_signed (uadd index 1)) < n
            \<and> to_unsigned (to_signed (uadd index 1)) div side_size = index div side_size
            \<and> j = to_unsigned (to_signed (uadd index 1)))}"

definition grid_eight_targets :: "nat \<Rightarrow> nat \<Rightarrow> nat \<Rightarrow> nat set" where
  \<comment> \<open>the same for the second loop of \<open>create_grid_eight_connections\<close>\<close>
  "grid_eight_targets side_size n index =
     {j. (usub (usub index side_size) 1 div side_size = usub (index div side_size) 1
            \<and> j = usub (usub index side_size) 1)
       \<or> (uadd (usub index side_size) 1 div side_size = usub (index div side_size) 1
            \<and> j = uadd (usub index side_size) 1)
       \<or> (usub (uadd index side_size) 1 < n
            \<and> usub (uadd index side_size) 1 div side_size = uadd (index div side_size) 1
            \<and> j = usub (uadd index side_size) 1)
       \<or> (uadd (uadd index side_size) 1 < n
            \<and> uadd (uadd index side_size) 1 div side_size = uadd (index div side_size) 1
            \<and> j = uadd (uadd index side_size) 1)}"

definition grid_four_edges :: "nat \<Rightarrow> (nat \<times> nat) set" where
  \<comment> \<open>the edges of the grid of side \<open>s\<close>, row-major: to the node one row up or down, and to
      the previous or next index when it lies in the same row\<close>
  "grid_four_edges s =
     {(i, j). i < s * s \<and> j < s * s \<and>
        (j + s = i \<or> j = i + s \<or> (j + 1 = i \<and> j div s = i div s) \<or> (j = i + 1 \<and> j div s = i div s))}"

definition grid_diagonal_edges :: "nat \<Rightarrow> (nat \<times> nat) set" where
  \<comment> \<open>the diagonal edges: upper-left, upper-right, lower-left and lower-right, each to a node
      whose row index is one above or one below\<close>
  "grid_diagonal_edges s =
     {(i, j). i < s * s \<and> j < s * s \<and>
        ((j + s + 1 = i \<and> j div s + 1 = i div s) \<or> (j + s = i + 1 \<and> j div s + 1 = i div s)
         \<or> (j + 1 = i + s \<and> j div s = i div s + 1) \<or> (j = i + s + 1 \<and> j div s = i div s + 1))}"

definition storage :: "'a network_scheme \<Rightarrow> nat \<times> conn_repr_type \<times> nat list list" where
  \<comment> \<open>what the constructor fixes before it builds the connections\<close>
  "storage net = (num_osc net, conn_representation net, osc_conn net)"

definition ceil_div :: "nat \<Rightarrow> nat \<Rightarrow> nat" where
  \<comment> \<open>the quotient rounded up\<close>
  "ceil_div a b = (a + b - 1) div b"

definition word_bits :: nat where
  \<comment> \<open>the number of bits of an \<open>unsigned int\<close>\<close>
  "word_bits = 8 * sizeof_unsigned_int"

definition list_bidir_edges :: "nat \<Rightarrow> (nat \<times> nat) set" where
  \<comment> \<open>the edges \<open>create_list_bidir_connections\<close> sets: from every index but 0 to the previous
      and to the next one\<close>
  "list_bidir_edges n = {(i, j). 0 < i \<and> i < n \<and> (j + 1 = i \<or> (j = i + 1 \<and> j < n))}"

definition example_net :: "real syncnet" where
  \<comment> \<open>four oscillators: the first is connected with the next two, with weights, and the last
      one has no neighbour\<close>
  "example_net =
     \<lparr> num_osc = 4, conn_representation = MATRIX_CONN_REPRESENTATION,
       osc_conn = replicate 4 (replicate 4 0),
       connections = {(0, 1), (0, 2), (1, 0), (2, 0)},
       weight = 2, oscillators = [0, pi / 2, pi / 2, pi],
       oscillator_locations = [[0], [1], [2], [9]],
       distance_conn_weights =
         Some [[0, 1 / 2, 1 / 4, 1], [1 / 2, 0, 1, 1], [1 / 4, 1, 0, 1], [1, 1, 1, 0]] \<rparr>"

definition radius_edges :: "'d arith \<Rightarrow> 'd list list \<Rightarrow> 'd \<Rightarrow> (nat \<times> nat) set" where
  \<comment> \<open>the pairs of different points whose squared distance, computed from the point of lower
      index to the other, is at most the radius times itself, both computed in the given
      arithmetic\<close>
  "radius_edges ar pts r =
     {(a, b). a < length pts \<and> b < length pts \<and> a \<noteq> b
        \<and> d_le ar (euclidean_distance_sqrt ar (pts ! min a b) (pts ! max a b)) (d_mul ar r r)}"

definition on_row_boundary :: "nat \<Rightarrow> nat \<Rightarrow> bool" where
  \<comment> \<open>the node lies in the first or in the last row of the grid of side \<open>s\<close>\<close>
  "on_row_boundary s i = (i div s = 0 \<or> i div s = s - 1)"

definition on_column_boundary :: "nat \<Rightarrow> nat \<Rightarrow> bool" where
  \<comment> \<open>the node lies in the first or in the last column\<close>
  "on_column_boundary s i = (i mod s = 0 \<or> i mod s = s - 1)"

definition grid_interior :: "nat \<Rightarrow> nat \<Rightarrow> bool" where
  "grid_interior s i = (\<not> on_row_boundary s i \<and> \<not> on_column_boundary s i)"

definition grid_border :: "nat \<Rightarrow> nat \<Rightarrow> bool" where
  \<comment> \<open>on an edge of the grid and not a corner\<close>
  "grid_border s i = (on_row_boundary s i \<noteq> on_column_boundary s i)"

definition grid_corner :: "nat \<Rightarrow> nat \<Rightarrow> bool" where
  "grid_corner s i = (on_row_boundary s i \<and> on_column_boundary s i)"

section \<open>Properties of the model\<close>

subsection \<open>Sequencing, neighbours and the phase derivative\<close>

lemma and_then_Inr [simp]: "and_then (Inr x) f = f x"
  by (simp add: and_then_def)

lemma and_then_Inl [simp]: "and_then (Inl e) f = Inl e"
  by (simp add: and_then_def)

lemma get_neighbors_loop_eq:
  "index < num_osc net \<Longrightarrow> set ks \<subseteq> {..<num_osc net} \<Longrightarrow>
   get_neighbors_loop net index ks result =
     Inr (result @ filter (\<lambda>k. (index, k) \<in> connections net) ks)"
  by (induction ks arbitrary: result) (simp_all add: get_connection_def)

lemma get_neighbors_eq:
  "index < num_osc net \<Longrightarrow> get_neighbors net index = Inr (neighbours net index)"
proof -
  assume "index < num_osc net"
  moreover have "set [0..<num_osc net] \<subseteq> {..<num_osc net}" by auto
  ultimately show ?thesis
    using get_neighbors_loop_eq [of index net "[0..<num_osc net]" "[]"]
    by (simp add: get_neighbors_def neighbours_def)
qed

lemma kuramoto_loop:
  "index < num_osc net \<Longrightarrow> set ks \<subseteq> {..<num_osc net} \<Longrightarrow>
   for_each ks (kuramoto_step weighted index teta) (net, phase, num_neighbors) =
     Inr (net,
          phase + (\<Sum>k\<leftarrow>filter (\<lambda>k. (index, k) \<in> connections net) ks.
                    if weighted then get_weight net index k * sin (oscillators net ! k - teta)
                    else sin (oscillators net ! k - teta)),
          num_neighbors + length (filter (\<lambda>k. (index, k) \<in> connections net) ks))"
  by (induction ks arbitrary: phase num_neighbors)
     (simp_all add: kuramoto_step_def get_connection_def)

lemma kuramoto_summand:
  "(if distance_conn_weights net \<noteq> None then get_weight net index k * s else s)
     = edge_weight net index k * s"
  by (simp add: get_weight_def edge_weight_def split: option.splits)

lemma divide_by_count_guarded:
  "divide_by_count x (if n = 0 then 1 else n) = Inr (x / real (if n = 0 then 1 else n))"
  by (simp add: divide_by_count_def)

lemma phase_kuramoto_eq:
  assumes "index < num_osc net"
  shows "phase_kuramoto net t teta index =
    Inr ((\<Sum>k\<leftarrow>neighbours net index. edge_weight net index k * sin (oscillators net ! k - teta))
           * weight net
           / real (if length (neighbours net index) = 0 then 1 else length (neighbours net index)),
         net)"
proof -
  have "set [0..<num_osc net] \<subseteq> {..<num_osc net}" by auto
  then have "for_each [0..<num_osc net]
      (kuramoto_step (distance_conn_weights net \<noteq> None) index teta) (net, 0, 0) =
    Inr (net,
         (\<Sum>k\<leftarrow>neighbours net index. edge_weight net index k * sin (oscillators net ! k - teta)),
         length (neighbours net index))"
    using assms kuramoto_loop [of index net "[0..<num_osc net]" "distance_conn_weights net \<noteq> None" teta 0 0]
    by (simp only: kuramoto_summand neighbours_def) simp
  then show ?thesis
    by (simp only: phase_kuramoto_def and_then_Inr prod.case Let_def divide_by_count_guarded)
qed

subsection \<open>Unsigned and signed arithmetic\<close>

lemma to_unsigned_to_signed: "to_unsigned (to_signed u) = u mod 2 ^ 32"
proof -
  have "(int (u mod 2 ^ 32) - 2 ^ 32) mod 2 ^ 32 = int (u mod 2 ^ 32)"
    by (simp add: zmod_int mod_diff_right_eq)
  then show ?thesis
    by (simp add: to_unsigned_def to_signed_def zmod_int nat_eq_iff)
qed

lemma to_signed_nonneg_iff: "0 \<le> to_signed u \<longleftrightarrow> u mod 2 ^ 32 < 2 ^ 31"
proof -
  have "int (u mod 2 ^ 32) < 2 ^ 32"
    by (simp add: zmod_int)
  then show ?thesis
    by (auto simp: to_signed_def)
qed

lemma usub_ge: "b \<le> a \<Longrightarrow> a < 2 ^ 32 \<Longrightarrow> usub a b = a - b"
  by (simp add: usub_def to_unsigned_def nat_diff_distrib' of_nat_diff)

lemma usub_lt: "a < b \<Longrightarrow> b \<le> 2 ^ 32 \<Longrightarrow> usub a b = 2 ^ 32 + a - b"
proof -
  assume a: "a < b" "b \<le> 2 ^ 32"
  have "(int a - int b) mod 2 ^ 32 = (int a - int b + 2 ^ 32) mod 2 ^ 32" by simp
  also have "\<dots> = int a - int b + 2 ^ 32"
    using a by (intro mod_pos_pos_trivial) auto
  finally show ?thesis using a by (simp add: usub_def to_unsigned_def nat_eq_iff)
qed

lemma uadd_lt: "a + b < 2 ^ 32 \<Longrightarrow> uadd a b = a + b"
  by (simp add: uadd_def to_unsigned_def nat_eq_iff)

subsection \<open>One run of the body of a grid loop\<close>

lemma cond_set_connection:
  "(c \<Longrightarrow> index1 < num_osc net \<and> index2 < num_osc net) \<Longrightarrow>
   (if c then set_connection index1 index2 net else Inr net) =
   Inr (net\<lparr>connections := connections net \<union> (if c then {(index1, index2)} else {})\<rparr>)"
  by (simp add: set_connection_def)

lemma four_conditional_edges:
  "A \<union> (if c1 then {(i, j1)} else {}) \<union> (if c2 then {(i, j2)} else {})
     \<union> (if c3 then {(i, j3)} else {}) \<union> (if c4 then {(i, j4)} else {})
   = A \<union> {i} \<times> {j. (c1 \<and> j = j1) \<or> (c2 \<and> j = j2) \<or> (c3 \<and> j = j3) \<or> (c4 \<and> j = j4)}"
  by auto

lemma four_conditional_sets:
  assumes "index < num_osc net"
    and "c1 (num_osc net) \<Longrightarrow> j1 < num_osc net" "c2 (num_osc net) \<Longrightarrow> j2 < num_osc net"
    and "c3 (num_osc net) \<Longrightarrow> j3 < num_osc net" "c4 (num_osc net) \<Longrightarrow> j4 < num_osc net"
  shows "and_then (if c1 (num_osc net) then set_connection index j1 net else Inr net) (\<lambda>net.
         and_then (if c2 (num_osc net) then set_connection index j2 net else Inr net) (\<lambda>net.
         and_then (if c3 (num_osc net) then set_connection index j3 net else Inr net) (\<lambda>net.
         if c4 (num_osc net) then set_connection index j4 net else Inr net)))
       = Inr (net\<lparr>connections := connections net \<union>
           {index} \<times> {j. (c1 (num_osc net) \<and> j = j1) \<or> (c2 (num_osc net) \<and> j = j2)
                          \<or> (c3 (num_osc net) \<and> j = j3) \<or> (c4 (num_osc net) \<and> j = j4)}\<rparr>)"
proof -
  let ?n = "num_osc net"
  let ?n1 = "net\<lparr>connections := connections net \<union> (if c1 ?n then {(index, j1)} else {})\<rparr>"
  let ?n2 = "?n1\<lparr>connections := connections ?n1 \<union> (if c2 ?n then {(index, j2)} else {})\<rparr>"
  let ?n3 = "?n2\<lparr>connections := connections ?n2 \<union> (if c3 ?n then {(index, j3)} else {})\<rparr>"
  let ?n4 = "?n3\<lparr>connections := connections ?n3 \<union> (if c4 ?n then {(index, j4)} else {})\<rparr>"
  have 1: "(if c1 (num_osc net) then set_connection index j1 net else Inr net) = Inr ?n1"
    using assms by (intro cond_set_connection) simp
  have 2: "(if c2 (num_osc ?n1) then set_connection index j2 ?n1 else Inr ?n1) = Inr ?n2"
    using assms cond_set_connection [of "c2 ?n" index ?n1 j2] by simp
  have 3: "(if c3 (num_osc ?n2) then set_connection index j3 ?n2 else Inr ?n2) = Inr ?n3"
    using assms cond_set_connection [of "c3 ?n" index ?n2 j3] by simp
  have 4: "(if c4 (num_osc ?n3) then set_connection index j4 ?n3 else Inr ?n3) = Inr ?n4"
    using assms cond_set_connection [of "c4 ?n" index ?n3 j4] by simp
  have "?n4 = net\<lparr>connections := connections net \<union>
           {index} \<times> {j. (c1 ?n \<and> j = j1) \<or> (c2 ?n \<and> j = j2) \<or> (c3 ?n \<and> j = j3) \<or> (c4 ?n \<and> j = j4)}\<rparr>"
    using four_conditional_edges [of "connections net" "c1 ?n" index j1 "c2 ?n" j2 "c3 ?n" j3 "c4 ?n" j4] by simp
  then show ?thesis
    by (simp only: 1 2 3 4 and_then_Inr)
qed

lemma grid_four_step_eq:
  assumes "index < num_osc net"
    and "grid_four_targets side_size (num_osc net) index \<subseteq> {..<num_osc net}"
  shows "grid_four_step side_size index net =
    Inr (net\<lparr>connections := connections net \<union>
           {index} \<times> grid_four_targets side_size (num_osc net) index\<rparr>)"
proof -
  let ?c1 = "\<lambda>n::nat. to_signed (usub index side_size) \<ge> 0"
  let ?c2 = "\<lambda>n. to_unsigned (to_signed (uadd index side_size)) < n"
  let ?c3 = "\<lambda>n::nat. to_signed (usub index 1) \<ge> 0
                 \<and> to_unsigned (to_signed (usub index 1)) div side_size = index div side_size"
  let ?c4 = "\<lambda>n. to_unsigned (to_signed (uadd index 1)) < n
                 \<and> to_unsigned (to_signed (uadd index 1)) div side_size = index div side_size"
  let ?j1 = "to_unsigned (to_signed (usub index side_size))"
  let ?j2 = "to_unsigned (to_signed (uadd index side_size))"
  let ?j3 = "to_unsigned (to_signed (usub index 1))"
  let ?j4 = "to_unsigned (to_signed (uadd index 1))"
  let ?n = "num_osc net"
  have t: "grid_four_targets side_size ?n index =
      {j. (?c1 ?n \<and> j = ?j1) \<or> (?c2 ?n \<and> j = ?j2) \<or> (?c3 ?n \<and> j = ?j3) \<or> (?c4 ?n \<and> j = ?j4)}"
    by (auto simp: grid_four_targets_def)
  have "?c1 ?n \<Longrightarrow> ?j1 < ?n" "?c2 ?n \<Longrightarrow> ?j2 < ?n" "?c3 ?n \<Longrightarrow> ?j3 < ?n" "?c4 ?n \<Longrightarrow> ?j4 < ?n"
    using assms(2) unfolding t by blast+
  then show ?thesis
    unfolding grid_four_step_def Let_def t
    using assms(1)
    by (rule four_conditional_sets [where ?c1.0 = ?c1 and ?c2.0 = ?c2 and ?c3.0 = ?c3 and ?c4.0 = ?c4, rotated])
qed

lemma grid_eight_step_eq:
  assumes "index < num_osc net"
    and "grid_eight_targets side_size (num_osc net) index \<subseteq> {..<num_osc net}"
  shows "grid_eight_step side_size index net =
    Inr (net\<lparr>connections := connections net \<union>
           {index} \<times> grid_eight_targets side_size (num_osc net) index\<rparr>)"
proof -
  let ?c1 = "\<lambda>n::nat. usub (usub index side_size) 1 div side_size = usub (index div side_size) 1"
  let ?c2 = "\<lambda>n::nat. uadd (usub index side_size) 1 div side_size = usub (index div side_size) 1"
  let ?c3 = "\<lambda>n. usub (uadd index side_size) 1 < n
            \<and> usub (uadd index side_size) 1 div side_size = uadd (index div side_size) 1"
  let ?c4 = "\<lambda>n. uadd (uadd index side_size) 1 < n
            \<and> uadd (uadd index side_size) 1 div side_size = uadd (index div side_size) 1"
  let ?j1 = "usub (usub index side_size) 1"
  let ?j2 = "uadd (usub index side_size) 1"
  let ?j3 = "usub (uadd index side_size) 1"
  let ?j4 = "uadd (uadd index side_size) 1"
  let ?n = "num_osc net"
  have t: "grid_eight_targets side_size ?n index =
      {j. (?c1 ?n \<and> j = ?j1) \<or> (?c2 ?n \<and> j = ?j2) \<or> (?c3 ?n \<and> j = ?j3) \<or> (?c4 ?n \<and> j = ?j4)}"
    by (auto simp: grid_eight_targets_def)
  have "?c1 ?n \<Longrightarrow> ?j1 < ?n" "?c2 ?n \<Longrightarrow> ?j2 < ?n" "?c3 ?n \<Longrightarrow> ?j3 < ?n" "?c4 ?n \<Longrightarrow> ?j4 < ?n"
    using assms(2) unfolding t by blast+
  then show ?thesis
    unfolding grid_eight_step_def Let_def t
    using assms(1)
    by (rule four_conditional_sets [where ?c1.0 = ?c1 and ?c2.0 = ?c2 and ?c3.0 = ?c3 and ?c4.0 = ?c4, rotated])
qed

subsection \<open>The grid of four neighbours without wrap-around\<close>

lemma side_size_bound:
  assumes "s * s < (2::nat) ^ 32"
  shows "s < 65536"
proof (rule ccontr)
  assume "\<not> s < 65536"
  then have "65536 * 65536 \<le> s * s" by (intro mult_le_mono) simp_all
  with assms show False by simp
qed

lemma grid_index_bound:
  assumes "s * s < (2::nat) ^ 32" "i < s * s"
  shows "i + s + 1 < 2 ^ 32"
proof -
  have "s \<le> 65535" using side_size_bound [OF assms(1)] by simp
  then have "s * s \<le> 65535 * 65535" by (intro mult_le_mono)
  with \<open>s \<le> 65535\<close> assms(2) show ?thesis by simp
qed

lemma grid_four_wrap:
  assumes "s * s < 2 ^ 32" "i < s * s"
  shows "to_signed (usub i s) \<ge> 0 \<Longrightarrow> s \<le> i"
    and "s \<le> i \<Longrightarrow> to_unsigned (to_signed (usub i s)) = i - s"
    and "to_unsigned (to_signed (uadd i s)) = i + s"
    and "to_signed (usub i 1) \<ge> 0 \<Longrightarrow> 1 \<le> i"
    and "1 \<le> i \<Longrightarrow> to_unsigned (to_signed (usub i 1)) = i - 1"
    and "to_unsigned (to_signed (uadd i 1)) = i + 1"
    and "s * s < 2 ^ 31 \<Longrightarrow> s \<le> i \<Longrightarrow> to_signed (usub i s) \<ge> 0"
    and "s * s < 2 ^ 31 \<Longrightarrow> 1 \<le> i \<Longrightarrow> to_signed (usub i 1) \<ge> 0"
proof -
  have b: "s < 65536" "i + s + 1 < 2 ^ 32"
    using side_size_bound [OF assms(1)] grid_index_bound [OF assms] by simp_all
  have u1: "usub i s = (if s \<le> i then i - s else 2 ^ 32 + i - s)"
    using b by (simp add: usub_ge usub_lt)
  have u2: "usub i 1 = (if 1 \<le> i then i - 1 else 2 ^ 32 - 1)"
    using b by (simp add: usub_ge usub_lt)
  have u3: "uadd i s = i + s" "uadd i 1 = i + 1"
    using b by (simp_all add: uadd_lt)
  show "to_signed (usub i s) \<ge> 0 \<Longrightarrow> s \<le> i"
    unfolding u1 to_signed_nonneg_iff using b by (simp split: if_splits)
  show "s \<le> i \<Longrightarrow> to_unsigned (to_signed (usub i s)) = i - s"
    unfolding u1 to_unsigned_to_signed using b by simp
  show "to_unsigned (to_signed (uadd i s)) = i + s"
    unfolding u3 to_unsigned_to_signed using b by simp
  show "to_signed (usub i 1) \<ge> 0 \<Longrightarrow> 1 \<le> i"
    unfolding u2 to_signed_nonneg_iff using b by (simp split: if_splits)
  show "1 \<le> i \<Longrightarrow> to_unsigned (to_signed (usub i 1)) = i - 1"
    unfolding u2 to_unsigned_to_signed using b by simp
  show "to_unsigned (to_signed (uadd i 1)) = i + 1"
    unfolding u3 to_unsigned_to_signed using b by simp
  show "s * s < 2 ^ 31 \<Longrightarrow> s \<le> i \<Longrightarrow> to_signed (usub i s) \<ge> 0"
    unfolding u1 to_signed_nonneg_iff using b assms(2) by simp
  show "s * s < 2 ^ 31 \<Longrightarrow> 1 \<le> i \<Longrightarrow> to_signed (usub i 1) \<ge> 0"
    unfolding u2 to_signed_nonneg_iff using b assms(2) by simp
qed

lemma grid_four_targets_subset:
  assumes "s * s < 2 ^ 32" "i < s * s"
  shows "grid_four_targets s (s * s) i \<subseteq>
    {j. j < s * s \<and> (j + s = i \<or> j = i + s \<or> j + 1 = i \<or> j = i + 1)}"
  unfolding grid_four_targets_def grid_four_wrap(3,6) [OF assms]
  using grid_four_wrap(1,2,4,5) [OF assms] assms(2)
  by auto

lemma grid_four_targets_eq:
  assumes "s * s < 2 ^ 31" "i < s * s"
  shows "grid_four_targets s (s * s) i =
    {j. j < s * s \<and> (j + s = i \<or> j = i + s \<or> (j + 1 = i \<and> j div s = i div s)
                       \<or> (j = i + 1 \<and> j div s = i div s))}"
proof -
  have a: "s * s < 2 ^ 32" using assms(1) by simp
  note w = grid_four_wrap [OF a assms(2)]
  have 1: "to_signed (usub i s) \<ge> 0 \<longleftrightarrow> s \<le> i"
    using w(1) w(7) assms(1) by blast
  have 3: "to_signed (usub i 1) \<ge> 0 \<longleftrightarrow> 1 \<le> i"
    using w(4) w(8) assms(1) by blast
  show ?thesis
    unfolding grid_four_targets_def w(3) w(6) 1 3
    using w(2) w(5) assms(2)
    by auto
qed

subsection \<open>The diagonals of the grid of eight neighbours\<close>

lemma grid_eight_wrap:
  assumes "s * s < 2 ^ 32" "i < s * s"
  shows "s + 1 \<le> i \<Longrightarrow> usub (usub i s) 1 = i - s - 1"
    and "i < s + 1 \<Longrightarrow> usub (usub i s) 1 div s \<noteq> usub (i div s) 1"
    and "s \<le> i \<Longrightarrow> uadd (usub i s) 1 = i - s + 1"
    and "i < s \<Longrightarrow> uadd (usub i s) 1 div s \<noteq> usub (i div s) 1"
    and "usub (uadd i s) 1 = i + s - 1"
    and "uadd (uadd i s) 1 = i + s + 1"
    and "s \<le> i \<Longrightarrow> usub (i div s) 1 = i div s - 1 \<and> 1 \<le> i div s"
    and "uadd (i div s) 1 = i div s + 1"
proof -
  have b: "s < 65536" "i + s + 1 < 2 ^ 32"
    using side_size_bound [OF assms(1)] grid_index_bound [OF assms] by simp_all
  have s0: "0 < s" using assms(2) by (cases s) simp_all
  have u1: "usub i s = (if s \<le> i then i - s else 2 ^ 32 + i - s)"
    using b by (simp add: usub_ge usub_lt)
  have d: "i div s \<le> i" by simp
  show e1: "s + 1 \<le> i \<Longrightarrow> usub (usub i s) 1 = i - s - 1"
    using b by (simp add: u1 usub_ge)
  show e3: "usub (uadd i s) 1 = i + s - 1"
    using b s0 by (simp add: uadd_lt usub_ge)
  show e4: "uadd (uadd i s) 1 = i + s + 1"
    using b by (simp add: uadd_lt)
  show e2: "s \<le> i \<Longrightarrow> uadd (usub i s) 1 = i - s + 1"
    using b by (simp add: u1 uadd_lt)
  have d1: "i div s + 1 < 2 ^ 32"
    using div_le_dividend [of i s] b by linarith
  show e6: "uadd (i div s) 1 = i div s + 1"
    using d1 by (rule uadd_lt)
  show e5: "s \<le> i \<Longrightarrow> usub (i div s) 1 = i div s - 1 \<and> 1 \<le> i div s"
  proof -
    assume "s \<le> i"
    then have "1 \<le> i div s" using s0 by (simp add: Suc_le_eq div_greater_zero_iff)
    moreover have "i div s < 2 ^ 32" using d1 by simp
    ultimately show ?thesis by (simp add: usub_ge)
  qed
  show "i < s + 1 \<Longrightarrow> usub (usub i s) 1 div s \<noteq> usub (i div s) 1"
  proof -
    assume a: "i < s + 1"
    show ?thesis
    proof (cases "i < s")
      case True
      define x where "x = usub (usub i s) 1"
      have "usub (i div s) 1 = 2 ^ 32 - 1" using True by (simp add: usub_lt)
      moreover have "x = 2 ^ 32 + i - s - 1"
        using True b by (simp add: x_def u1 usub_ge)
      then have "x < 2 ^ 32 - 1" using True by simp
      moreover have "x div s \<le> x" by (rule div_le_dividend)
      ultimately have "x div s \<noteq> usub (i div s) 1" by linarith
      then show ?thesis by (simp add: x_def)
    next
      case False
      then have i: "i = s" using a by simp
      then have "usub (i div s) 1 = 0" using s0 by (simp add: usub_ge)
      moreover have "usub i s = 0" unfolding u1 using i by simp
      then have "usub (usub i s) 1 = 2 ^ 32 - 1" by (simp add: usub_lt)
      moreover have "(2 ^ 32 - 1) div s \<noteq> 0" using b s0 by (simp add: div_eq_0_iff)
      ultimately show ?thesis by simp
    qed
  qed
  show "i < s \<Longrightarrow> uadd (usub i s) 1 div s \<noteq> usub (i div s) 1"
  proof -
    assume a: "i < s"
    then have r: "usub (i div s) 1 = 2 ^ 32 - 1" by (simp add: usub_lt)
    show ?thesis
    proof (cases "i + 1 = s")
      case True
      then have "usub i s = 2 ^ 32 - 1" using a by (simp add: u1)
      then have "uadd (usub i s) 1 = 0" by (simp add: uadd_def to_unsigned_def)
      then show ?thesis using r by simp
    next
      case False
      then have s2: "2 \<le> s" and lt: "i + 1 < s" using a by simp_all
      then have "uadd (usub i s) 1 = 2 ^ 32 + i + 1 - s" using a b by (simp add: u1 uadd_lt)
      moreover have "(2 ^ 32 + i + 1 - s) div s \<le> (2 ^ 32 + i + 1 - s) div 2"
        using s2 by (intro div_le_mono2) simp_all
      moreover have "(2 ^ 32 + i + 1 - s) div 2 < 2 ^ 32 - 1" using lt by simp
      ultimately show ?thesis using r by simp
    qed
  qed
qed

lemma grid_eight_targets_eq:
  assumes "s * s < 2 ^ 32" "i < s * s"
  shows "grid_eight_targets s (s * s) i =
    {j. j < s * s \<and> ((j + s + 1 = i \<and> j div s + 1 = i div s) \<or> (j + s = i + 1 \<and> j div s + 1 = i div s)
                  \<or> (j + 1 = i + s \<and> j div s = i div s + 1) \<or> (j = i + s + 1 \<and> j div s = i div s + 1))}"
proof -
  note w = grid_eight_wrap [OF assms]
  have s0: "0 < s" using assms(2) by (cases s) simp_all
  have 1: "(usub (usub i s) 1 div s = usub (i div s) 1 \<and> j = usub (usub i s) 1) \<longleftrightarrow>
           (j + s + 1 = i \<and> j div s + 1 = i div s)" for j
  proof (cases "s + 1 \<le> i")
    case True
    then have "j + s + 1 = i \<longleftrightarrow> j = i - s - 1" by auto
    moreover have "s \<le> i" using True by simp
    then have "(i - s - 1) div s = i div s - 1 \<longleftrightarrow> (i - s - 1) div s + 1 = i div s"
      using w(7) by auto
    ultimately show ?thesis using w(1) [OF True] w(7) [OF \<open>s \<le> i\<close>] by auto
  next
    case False
    then show ?thesis using w(2) by auto
  qed
  have 2: "(uadd (usub i s) 1 div s = usub (i div s) 1 \<and> j = uadd (usub i s) 1) \<longleftrightarrow>
           (j + s = i + 1 \<and> j div s + 1 = i div s)" for j
  proof (cases "s \<le> i")
    case True
    then have "j + s = i + 1 \<longleftrightarrow> j = i - s + 1" by auto
    moreover have "(i - s + 1) div s = i div s - 1 \<longleftrightarrow> (i - s + 1) div s + 1 = i div s"
      using w(7) [OF True] by auto
    ultimately show ?thesis using w(3) [OF True] w(7) [OF True] by auto
  next
    case False
    then have "i div s = 0" by simp
    then show ?thesis using False w(4) by auto
  qed
  have 3: "(usub (uadd i s) 1 < s * s \<and> usub (uadd i s) 1 div s = uadd (i div s) 1
              \<and> j = usub (uadd i s) 1) \<longleftrightarrow>
           (j < s * s \<and> j + 1 = i + s \<and> j div s = i div s + 1)" for j
  proof -
    have "j + 1 = i + s \<longleftrightarrow> j = i + s - 1" using s0 by auto
    then show ?thesis unfolding w(5) w(8) by auto
  qed
  have 4: "(uadd (uadd i s) 1 < s * s \<and> uadd (uadd i s) 1 div s = uadd (i div s) 1
              \<and> j = uadd (uadd i s) 1) \<longleftrightarrow>
           (j < s * s \<and> j = i + s + 1 \<and> j div s = i div s + 1)" for j
    unfolding w(6) w(8) by auto
  show ?thesis
    unfolding grid_eight_targets_def 1 2 3 4
    using assms(2) s0 by auto
qed

subsection \<open>The loops of the grid builders\<close>

lemma for_each_connections:
  assumes "\<And>i net. i \<in> set is \<Longrightarrow> num_osc net = n \<Longrightarrow>
             body i net = Inr (net\<lparr>connections := connections net \<union> {i} \<times> T i\<rparr>)"
    and "num_osc net = n"
  shows "for_each is body net = Inr (net\<lparr>connections := connections net \<union> Sigma (set is) T\<rparr>)"
  using assms
proof (induction "is" arbitrary: net)
  case Nil
  then show ?case by simp
next
  case (Cons i "is")
  let ?net = "net\<lparr>connections := connections net \<union> {i} \<times> T i\<rparr>"
  have "body i net = Inr ?net"
    using Cons.prems by simp
  moreover have "for_each is body ?net = Inr (?net\<lparr>connections := connections ?net \<union> Sigma (set is) T\<rparr>)"
    using Cons.IH [of ?net] Cons.prems by simp
  moreover have "connections net \<union> {i} \<times> T i \<union> Sigma (set is) T = connections net \<union> Sigma (set (i # is)) T"
    by auto
  ultimately show ?case by simp
qed

lemma not_invalid_grid_square:
  "\<not> sqrt (real (s * s)) - of_int \<lfloor>sqrt (real (s * s))\<rfloor> > 0"
  by simp

lemma side_size_square: "nat \<lfloor>sqrt (real (s * s))\<rfloor> = s"
  by simp

lemma invalid_grid_iff:
  "sqrt (real n) - of_int \<lfloor>sqrt (real n)\<rfloor> > 0 \<longleftrightarrow> (\<forall>s. s * s \<noteq> n)"
proof
  assume "sqrt (real n) - of_int \<lfloor>sqrt (real n)\<rfloor> > 0"
  then show "\<forall>s. s * s \<noteq> n" using not_invalid_grid_square by blast
next
  assume a: "\<forall>s. s * s \<noteq> n"
  show "sqrt (real n) - of_int \<lfloor>sqrt (real n)\<rfloor> > 0"
  proof (rule ccontr)
    assume "\<not> ?thesis"
    moreover have "of_int \<lfloor>sqrt (real n)\<rfloor> \<le> sqrt (real n)" by simp
    ultimately have e: "sqrt (real n) = of_int \<lfloor>sqrt (real n)\<rfloor>" by linarith
    define k where "k = nat \<lfloor>sqrt (real n)\<rfloor>"
    have "0 \<le> \<lfloor>sqrt (real n)\<rfloor>" by simp
    then have "sqrt (real n) = real k" using e by (simp add: k_def)
    moreover have "(sqrt (real n))\<^sup>2 = real n" by simp
    ultimately have "real n = real (k * k)" by (simp add: power2_eq_square)
    then have "n = k * k" by (simp only: of_nat_eq_iff)
    with a show False by blast
  qed
qed

lemma create_grid_four_connections_raw:
  assumes "num_osc net = s * s" "s * s < 2 ^ 32"
  shows "create_grid_four_connections net =
    Inr (net\<lparr>connections := connections net \<union> Sigma {..<s * s} (grid_four_targets s (s * s))\<rparr>)"
proof -
  have "for_each [0..<s * s] (grid_four_step s) net =
      Inr (net\<lparr>connections := connections net \<union> Sigma (set [0..<s * s]) (grid_four_targets s (s * s))\<rparr>)"
  proof (rule for_each_connections [where n = "s * s"])
    fix i and net' :: "'a network_scheme"
    assume i: "i \<in> set [0..<s * s]" and n: "num_osc net' = s * s"
    then have "grid_four_targets s (num_osc net') i \<subseteq> {..<num_osc net'}"
      using grid_four_targets_subset [OF assms(2), of i] by auto
    then show "grid_four_step s i net' =
        Inr (net'\<lparr>connections := connections net' \<union> {i} \<times> grid_four_targets s (s * s) i\<rparr>)"
      using grid_four_step_eq [of i net' s] i n by simp
  qed (rule assms(1))
  moreover have "set [0..<s * s] = {..<s * s}" by auto
  ultimately show ?thesis
    unfolding create_grid_four_connections_def Let_def assms(1)
    by (simp only: not_invalid_grid_square side_size_square if_False)
qed

lemma grid_four_targets_edges:
  assumes "s * s < 2 ^ 31"
  shows "Sigma {..<s * s} (grid_four_targets s (s * s)) = grid_four_edges s"
proof -
  have "(i, j) \<in> Sigma {..<s * s} (grid_four_targets s (s * s)) \<longleftrightarrow> (i, j) \<in> grid_four_edges s" for i j
  proof (cases "i < s * s")
    case True
    show ?thesis
      unfolding mem_Sigma_iff grid_four_targets_eq [OF assms True]
      using True by (simp add: grid_four_edges_def)
  next
    case False
    then show ?thesis by (simp add: grid_four_edges_def)
  qed
  then show ?thesis by auto
qed

lemma create_grid_four_connections_eq:
  assumes "num_osc net = s * s" "s * s < 2 ^ 31"
  shows "create_grid_four_connections net =
    Inr (net\<lparr>connections := connections net \<union> grid_four_edges s\<rparr>)"
proof -
  have "s * s < 2 ^ 32" using assms(2) by simp
  then show ?thesis
    using create_grid_four_connections_raw [OF assms(1)] grid_four_targets_edges [OF assms(2)]
    by simp
qed

lemma grid_eight_targets_edges:
  assumes "s * s < 2 ^ 32"
  shows "Sigma {..<s * s} (grid_eight_targets s (s * s)) = grid_diagonal_edges s"
proof -
  have "(i, j) \<in> Sigma {..<s * s} (grid_eight_targets s (s * s)) \<longleftrightarrow> (i, j) \<in> grid_diagonal_edges s" for i j
  proof (cases "i < s * s")
    case True
    show ?thesis
      unfolding mem_Sigma_iff grid_eight_targets_eq [OF assms True]
      using True by (simp add: grid_diagonal_edges_def)
  next
    case False
    then show ?thesis by (simp add: grid_diagonal_edges_def)
  qed
  then show ?thesis by auto
qed

lemma create_grid_eight_connections_raw:
  assumes "num_osc net = s * s" "s * s < 2 ^ 32"
  shows "create_grid_eight_connections net =
    Inr (net\<lparr>connections := connections net \<union> Sigma {..<s * s} (grid_four_targets s (s * s))
           \<union> grid_diagonal_edges s\<rparr>)"
proof -
  let ?net1 = "net\<lparr>connections := connections net \<union> Sigma {..<s * s} (grid_four_targets s (s * s))\<rparr>"
  have n1: "num_osc ?net1 = s * s" using assms(1) by simp
  have "for_each [0..<s * s] (grid_eight_step s) ?net1 =
      Inr (?net1\<lparr>connections := connections ?net1 \<union> Sigma (set [0..<s * s]) (grid_eight_targets s (s * s))\<rparr>)"
  proof (rule for_each_connections [where n = "s * s"])
    fix i and net' :: "'a network_scheme"
    assume i: "i \<in> set [0..<s * s]" and n: "num_osc net' = s * s"
    then have "grid_eight_targets s (num_osc net') i \<subseteq> {..<num_osc net'}"
      using grid_eight_targets_eq [OF assms(2), of i] by auto
    then show "grid_eight_step s i net' =
        Inr (net'\<lparr>connections := connections net' \<union> {i} \<times> grid_eight_targets s (s * s) i\<rparr>)"
      using grid_eight_step_eq [of i net' s] i n by simp
  qed (rule n1)
  moreover have "set [0..<s * s] = {..<s * s}" by auto
  ultimately have "for_each [0..<s * s] (grid_eight_step s) ?net1 =
      Inr (net\<lparr>connections := connections net \<union> Sigma {..<s * s} (grid_four_targets s (s * s))
           \<union> grid_diagonal_edges s\<rparr>)"
    using grid_eight_targets_edges [OF assms(2)] by simp
  then show ?thesis
    unfolding create_grid_eight_connections_def Let_def
      create_grid_four_connections_raw [OF assms] and_then_Inr n1
    by (simp only: side_size_square)
qed

subsection \<open>What the builders leave alone\<close>

lemma and_then_InrE:
  assumes "and_then m f = Inr y"
  obtains x where "m = Inr x" "f x = Inr y"
  using assms by (cases m) (simp_all add: and_then_def)

lemma for_each_preserves:
  assumes "\<And>i s s'. body i s = Inr s' \<Longrightarrow> f s' = f s"
    and "for_each is body s = Inr s'"
  shows "f s' = f s"
  using assms(2)
proof (induction "is" arbitrary: s)
  case Nil
  then show ?case by simp
next
  case (Cons i "is")
  from Cons.prems obtain s1 where 1: "body i s = Inr s1" and 2: "for_each is body s1 = Inr s'"
    by (auto elim: and_then_InrE)
  show ?case using Cons.IH [OF 2] assms(1) [OF 1] by simp
qed

lemma cond_set_connection_storage:
  "(if c then set_connection i j net else Inr net) = Inr net' \<Longrightarrow> storage net' = storage net"
  by (auto simp: set_connection_def storage_def split: if_splits)

lemma set_connection_storage:
  "set_connection i j net = Inr net' \<Longrightarrow> storage net' = storage net"
  using cond_set_connection_storage [of True] by simp

lemma list_bidir_step_storage:
  assumes "list_bidir_step i net = Inr net'"
  shows "storage net' = storage net"
proof -
  from assms obtain net1 where
    1: "(if i > 0 then set_connection i (usub i 1) net else Inr net) = Inr net1" and
    2: "(if i < usub (num_osc net1) 1 then set_connection i (uadd i 1) net1 else Inr net1) = Inr net'"
    unfolding list_bidir_step_def by (elim and_then_InrE)
  show ?thesis
    using cond_set_connection_storage [OF 1] cond_set_connection_storage [OF 2] by simp
qed

lemma four_conditional_sets_storage:
  assumes "and_then (if c1 then set_connection i j1 net else Inr net) (\<lambda>net.
         and_then (if c2 net then set_connection i j2 net else Inr net) (\<lambda>net.
         and_then (if c3 net then set_connection i j3 net else Inr net) (\<lambda>net.
         if c4 net then set_connection i j4 net else Inr net))) = Inr net'"
  shows "storage net' = storage net"
proof -
  from assms obtain net1 net2 net3 where
    1: "(if c1 then set_connection i j1 net else Inr net) = Inr net1" and
    2: "(if c2 net1 then set_connection i j2 net1 else Inr net1) = Inr net2" and
    3: "(if c3 net2 then set_connection i j3 net2 else Inr net2) = Inr net3" and
    4: "(if c4 net3 then set_connection i j4 net3 else Inr net3) = Inr net'"
    by (elim and_then_InrE)
  show ?thesis
    using cond_set_connection_storage [OF 1] cond_set_connection_storage [OF 2]
      cond_set_connection_storage [OF 3] cond_set_connection_storage [OF 4] by simp
qed

lemma grid_four_step_storage:
  "grid_four_step s i net = Inr net' \<Longrightarrow> storage net' = storage net"
  unfolding grid_four_step_def Let_def by (rule four_conditional_sets_storage)

lemma grid_eight_step_storage:
  "grid_eight_step s i net = Inr net' \<Longrightarrow> storage net' = storage net"
  unfolding grid_eight_step_def Let_def by (rule four_conditional_sets_storage)

lemma create_structure_storage:
  assumes "create_structure ct net = Inr net'"
  shows "storage net' = storage net"
proof (cases ct)
  case NONE
  then show ?thesis using assms by (simp add: create_none_connections_def)
next
  case ALL_TO_ALL
  have inner: "for_each cols (\<lambda>col net. and_then (set_connection row col net) (set_connection col row)) net1
      = Inr net2 \<Longrightarrow> storage net2 = storage net1" for cols row and net1 net2 :: "'a network_scheme"
    by (erule for_each_preserves [rotated]) (auto elim!: and_then_InrE dest!: set_connection_storage)
  have "create_all_to_all_connections net = Inr net'" using assms ALL_TO_ALL by simp
  then show ?thesis
    unfolding create_all_to_all_connections_def
    by (rule for_each_preserves [rotated]) (rule inner)
next
  case GRID_FOUR
  then have "for_each [0..<num_osc net] (grid_four_step (nat \<lfloor>sqrt (real (num_osc net))\<rfloor>)) net = Inr net'"
    using assms by (simp add: create_grid_four_connections_def Let_def split: if_splits)
  then show ?thesis
    by (rule for_each_preserves [rotated]) (rule grid_four_step_storage)
next
  case GRID_EIGHT
  then obtain net1 where 1: "create_grid_four_connections net = Inr net1"
    and 2: "for_each [0..<num_osc net1] (grid_eight_step (nat \<lfloor>sqrt (real (num_osc net1))\<rfloor>)) net1 = Inr net'"
    using assms by (auto simp: create_grid_eight_connections_def Let_def elim!: and_then_InrE)
  from 1 have "for_each [0..<num_osc net] (grid_four_step (nat \<lfloor>sqrt (real (num_osc net))\<rfloor>)) net = Inr net1"
    by (simp add: create_grid_four_connections_def Let_def split: if_splits)
  then have "storage net1 = storage net"
    by (rule for_each_preserves [rotated]) (rule grid_four_step_storage)
  moreover have "storage net' = storage net1"
    using 2 by (rule for_each_preserves [rotated]) (rule grid_eight_step_storage)
  ultimately show ?thesis by simp
next
  case LIST_BIDIR
  then have "create_list_bidir_connections net = Inr net'" using assms by simp
  then show ?thesis
    unfolding create_list_bidir_connections_def
    by (rule for_each_preserves [rotated]) (rule list_bidir_step_storage)
next
  case CONN_OTHER
  then show ?thesis using assms by simp
qed

subsection \<open>The bidirectional list and the allocation\<close>

lemma list_bidir_step_eq:
  assumes "0 < index" "index < num_osc net" "num_osc net < 2 ^ 32"
  shows "list_bidir_step index net =
    Inr (net\<lparr>connections := connections net \<union>
      {index} \<times> {j. j + 1 = index \<or> (j = index + 1 \<and> j < num_osc net)}\<rparr>)"
proof -
  have "{index} \<times> {j. j + 1 = index \<or> (j = index + 1 \<and> j < num_osc net)} =
      {(index, index - 1)} \<union> (if index + 1 < num_osc net then {(index, index + 1)} else {})"
    using assms by auto
  moreover have "index < num_osc net - Suc 0 \<longleftrightarrow> index + 1 < num_osc net"
    by auto
  ultimately show ?thesis
    using assms
    by (simp add: list_bidir_step_def usub_ge uadd_lt set_connection_def insert_commute)
qed

lemma create_list_bidir_connections_eq:
  assumes "num_osc net < 2 ^ 32"
  shows "create_list_bidir_connections net =
    Inr (net\<lparr>connections := connections net \<union> list_bidir_edges (num_osc net)\<rparr>)"
proof -
  let ?n = "num_osc net"
  let ?T = "\<lambda>i. {j. j + 1 = i \<or> (j = i + 1 \<and> j < ?n)}"
  have "for_each [1..<?n] list_bidir_step net =
      Inr (net\<lparr>connections := connections net \<union> Sigma (set [1..<?n]) ?T\<rparr>)"
  proof (rule for_each_connections [where n = "?n"])
    fix i and net' :: "'a network_scheme"
    assume "i \<in> set [1..<?n]" "num_osc net' = ?n"
    then show "list_bidir_step i net' = Inr (net'\<lparr>connections := connections net' \<union> {i} \<times> ?T i\<rparr>)"
      using assms list_bidir_step_eq [of i net'] by simp
  qed simp
  moreover have "Sigma (set [1..<?n]) ?T = list_bidir_edges ?n"
    by (auto simp: list_bidir_edges_def)
  ultimately show ?thesis by (simp add: create_list_bidir_connections_def)
qed

lemma num_osc_network_alloc [simp]: "num_osc (network_alloc m n) = n"
  by (simp add: network_alloc_def)

lemma connections_network_alloc [simp]: "connections (network_alloc m n) = {}"
  by (simp add: network_alloc_def)

lemma osc_conn_network_alloc [simp]:
  "osc_conn (network_alloc m n) = replicate n (replicate (number_elements m n) 0)"
  by (simp add: network_alloc_def)

lemma conn_representation_network_alloc [simp]:
  "conn_representation (network_alloc m n) =
     (if n > m then BITMAP_CONN_REPRESENTATION else MATRIX_CONN_REPRESENTATION)"
  by (simp add: network_alloc_def)

lemma network_ctor_list_bidir:
  "n < 2 ^ 32 \<Longrightarrow>
   network_ctor m n LIST_BIDIR = Inr ((network_alloc m n)\<lparr>connections := list_bidir_edges n\<rparr>)"
  by (simp add: network_ctor_def create_list_bidir_connections_eq)

lemma network_ctor_none: "network_ctor m n NONE = Inr (network_alloc m n)"
  by (simp add: network_ctor_def create_none_connections_def)

lemma DBL_MAX_gt: "DBL_MAX > 2"
proof -
  have "(2::real) < (2 ^ 53 - 1) * 1" by simp
  also have "\<dots> \<le> (2 ^ 53 - 1) * 2 ^ 971" by (intro mult_left_mono) simp_all
  finally show ?thesis by (simp add: DBL_MAX_def)
qed

lemma example_net_neighbors:
  "get_neighbors example_net 0 = Inr [1, 2]"
  "get_neighbors example_net 3 = Inr []"
proof -
  have "[0..<4] = [0, 1, 2, 3]" by (simp add: upt_conv_Cons)
  then show "get_neighbors example_net 0 = Inr [1, 2]" "get_neighbors example_net 3 = Inr []"
    by (simp_all add: get_neighbors_eq neighbours_def example_net_def)
qed

subsection \<open>The radius-based builder\<close>

lemma for_each_edges:
  assumes "\<And>i s. i \<in> set is \<Longrightarrow> P s \<Longrightarrow> \<exists>s'. body i s = Inr s' \<and> P s' \<and> c s' = c s \<union> E i"
    and "P s"
  shows "\<exists>s'. for_each is body s = Inr s' \<and> P s' \<and> c s' = c s \<union> (\<Union>i\<in>set is. E i)"
  using assms
proof (induction "is" arbitrary: s)
  case Nil
  then show ?case by simp
next
  case (Cons i "is")
  obtain s1 where 1: "body i s = Inr s1" "P s1" "c s1 = c s \<union> E i"
    using Cons.prems(1) [of i s] Cons.prems(2) by auto
  obtain s' where 2: "for_each is body s1 = Inr s'" "P s'" "c s' = c s1 \<union> (\<Union>i\<in>set is. E i)"
    using Cons.IH [of s1] Cons.prems(1) 1(2) by auto
  have "c s' = c s \<union> (\<Union>i\<in>set (i # is). E i)"
    using 1(3) 2(3) by auto
  then show ?case using 1(1) 2(1) 2(2) by auto
qed

lemma set_weight_fields [simp]:
  "num_osc (set_weight i j v net) = num_osc net"
  "connections (set_weight i j v net) = connections net"
  "oscillator_locations (set_weight i j v net) = oscillator_locations net"
  by (simp_all add: set_weight_def)

lemma connect_step_edges:
  fixes net :: "('d, 'a) syncnet_scheme"
  assumes "i < num_osc net" "j < num_osc net"
  shows "\<exists>net' mx'. connect_step ar sqr e i j (net, mx) = Inr (net', mx')
    \<and> num_osc net' = num_osc net \<and> oscillator_locations net' = oscillator_locations net
    \<and> connections net' = connections net \<union>
        (if d_le ar (euclidean_distance_sqrt ar (oscillator_locations net ! i) (oscillator_locations net ! j)) sqr
         then {(j, i), (i, j)} else {})"
  using assms
  by (auto simp: connect_step_def Let_def set_connection_def)

lemma connect_inner_loop:
  fixes net :: "('d, 'a) syncnet_scheme"
  assumes "i < n" "num_osc net = n" "oscillator_locations net = pts"
  shows "\<exists>net' mx'. for_each [i + 1..<n] (connect_step ar sqr e i) (net, mx) = Inr (net', mx')
    \<and> num_osc net' = n \<and> oscillator_locations net' = pts
    \<and> connections net' = connections net \<union>
        (\<Union>j\<in>{i + 1..<n}. if d_le ar (euclidean_distance_sqrt ar (pts ! i) (pts ! j)) sqr
                          then {(j, i), (i, j)} else {})"
proof -
  let ?P = "\<lambda>s :: ('d, 'a) syncnet_scheme \<times> 'd. num_osc (fst s) = n \<and> oscillator_locations (fst s) = pts"
  let ?E = "\<lambda>j. if d_le ar (euclidean_distance_sqrt ar (pts ! i) (pts ! j)) sqr then {(j, i), (i, j)} else {}"
  have "\<exists>s'. for_each [i + 1..<n] (connect_step ar sqr e i) (net, mx) = Inr s' \<and> ?P s'
      \<and> connections (fst s') = connections (fst (net, mx)) \<union> (\<Union>j\<in>set [i + 1..<n]. ?E j)"
  proof (rule for_each_edges [where P = ?P and c = "\<lambda>s. connections (fst s)" and E = ?E])
    fix j and s :: "('d, 'a) syncnet_scheme \<times> 'd"
    assume j: "j \<in> set [i + 1..<n]" and p: "?P s"
    obtain net1 mx1 where s: "s = (net1, mx1)" by (cases s)
    have "i < num_osc net1" "j < num_osc net1" using j p s assms(1) by simp_all
    from connect_step_edges [OF this, of ar sqr e mx1] p s
    show "\<exists>s'. connect_step ar sqr e i j s = Inr s' \<and> ?P s'
        \<and> connections (fst s') = connections (fst s) \<union> ?E j"
      by auto
  qed (simp add: assms)
  then show ?thesis by auto
qed

lemma connect_outer_loop:
  fixes net :: "('d, 'a) syncnet_scheme"
  assumes "num_osc net = n" "oscillator_locations net = pts"
  shows "\<exists>net' mx'. for_each [0..<n] (\<lambda>i. for_each [i + 1..<n] (connect_step ar sqr e i)) (net, mx)
       = Inr (net', mx')
    \<and> num_osc net' = n \<and> oscillator_locations net' = pts
    \<and> connections net' = connections net \<union>
        (\<Union>i\<in>{0..<n}. \<Union>j\<in>{i + 1..<n}. if d_le ar (euclidean_distance_sqrt ar (pts ! i) (pts ! j)) sqr
                          then {(j, i), (i, j)} else {})"
proof -
  let ?P = "\<lambda>s :: ('d, 'a) syncnet_scheme \<times> 'd. num_osc (fst s) = n \<and> oscillator_locations (fst s) = pts"
  let ?E = "\<lambda>i. \<Union>j\<in>{i + 1..<n}. if d_le ar (euclidean_distance_sqrt ar (pts ! i) (pts ! j)) sqr
                          then {(j, i), (i, j)} else {}"
  have "\<exists>s'. for_each [0..<n] (\<lambda>i. for_each [i + 1..<n] (connect_step ar sqr e i)) (net, mx) = Inr s'
      \<and> ?P s' \<and> connections (fst s') = connections (fst (net, mx)) \<union> (\<Union>i\<in>set [0..<n]. ?E i)"
  proof (rule for_each_edges [where P = ?P and c = "\<lambda>s. connections (fst s)" and E = ?E])
    fix i and s :: "('d, 'a) syncnet_scheme \<times> 'd"
    assume i: "i \<in> set [0..<n]" and p: "?P s"
    obtain net1 mx1 where s: "s = (net1, mx1)" by (cases s)
    have "i < n" "num_osc net1 = n" "oscillator_locations net1 = pts" using i p s by simp_all
    from connect_inner_loop [OF this, of ar sqr e mx1] s
    show "\<exists>s'. for_each [i + 1..<n] (connect_step ar sqr e i) s = Inr s' \<and> ?P s'
        \<and> connections (fst s') = connections (fst s) \<union> ?E i"
      by auto
  qed (simp add: assms)
  then show ?thesis by auto
qed

lemma normalize_loops:
  fixes net :: "('d, 'a) syncnet_scheme"
  shows "\<exists>net'. for_each is (\<lambda>i. for_each (js i) (normalize_step ar sub mul i)) net = Inr net'
    \<and> num_osc net' = num_osc net \<and> connections net' = connections net"
proof -
  let ?P = "\<lambda>s :: ('d, 'a) syncnet_scheme. num_osc s = num_osc net \<and> connections s = connections net"
  have inner: "\<exists>s'. for_each js' (normalize_step ar sub mul i) s = Inr s' \<and> ?P s' \<and> {} = {} \<union> (\<Union>j\<in>set js'. {})"
    if "?P s" for i js' and s :: "('d, 'a) syncnet_scheme"
    by (rule for_each_edges [where P = ?P and c = "\<lambda>s. {}" and E = "\<lambda>j. {}"])
       (use that in \<open>auto simp: normalize_step_def Let_def split: option.splits\<close>)
  have "\<exists>s'. for_each is (\<lambda>i. for_each (js i) (normalize_step ar sub mul i)) net = Inr s' \<and> ?P s'
      \<and> {} = {} \<union> (\<Union>j\<in>set is. {})"
    by (rule for_each_edges [where P = ?P and c = "\<lambda>s. {}" and E = "\<lambda>j. {}"])
       (use inner in auto)
  then show ?thesis by auto
qed

lemma radius_edges_union:
  "(\<Union>i\<in>{0..<length pts}. \<Union>j\<in>{i + 1..<length pts}.
      if d_le ar (euclidean_distance_sqrt ar (pts ! i) (pts ! j)) (d_mul ar r r)
      then {(j, i), (i, j)} else {})
   = radius_edges ar pts r"
proof -
  let ?t = "\<lambda>i j. d_le ar (euclidean_distance_sqrt ar (pts ! i) (pts ! j)) (d_mul ar r r)"
  have "(a, b) \<in> (\<Union>i\<in>{0..<length pts}. \<Union>j\<in>{i + 1..<length pts}.
      if ?t i j then {(j, i), (i, j)} else {})
    \<longleftrightarrow> (a, b) \<in> radius_edges ar pts r" for a b
  proof
    assume "(a, b) \<in> (\<Union>i\<in>{0..<length pts}. \<Union>j\<in>{i + 1..<length pts}.
      if ?t i j then {(j, i), (i, j)} else {})"
    then obtain i j where ij: "i \<in> {0..<length pts}" "j \<in> {i + 1..<length pts}"
      "(a, b) \<in> (if ?t i j then {(j, i), (i, j)} else {})"
      by blast
    then have "i < j" "j < length pts" "?t i j" "(a, b) = (j, i) \<or> (a, b) = (i, j)"
      by (auto split: if_splits)
    then show "(a, b) \<in> radius_edges ar pts r"
      by (auto simp: radius_edges_def min_def max_def)
  next
    assume "(a, b) \<in> radius_edges ar pts r"
    then have ab: "a < length pts" "b < length pts" "a \<noteq> b" "?t (min a b) (max a b)"
      by (auto simp: radius_edges_def)
    show "(a, b) \<in> (\<Union>i\<in>{0..<length pts}. \<Union>j\<in>{i + 1..<length pts}.
      if ?t i j then {(j, i), (i, j)} else {})"
    proof (cases "a < b")
      case True
      then have "?t a b" using ab(4) by (simp add: min_def max_def)
      then show ?thesis
        using ab True by (intro UN_I [of a] UN_I [of b]) auto
    next
      case False
      then have ba: "b < a" using ab by simp
      then have "?t b a" using ab(4) by (simp add: min_def max_def)
      then show ?thesis
        using ab ba by (intro UN_I [of b] UN_I [of a]) auto
    qed
  qed
  then show ?thesis by auto
qed

lemma create_connections_edges:
  fixes net :: "('d, 'a) syncnet_scheme"
  assumes "oscillator_locations net = pts" "num_osc net = length pts"
  shows "\<exists>net'. create_connections ar r e net = Inr net' \<and> num_osc net' = length pts
    \<and> connections net' = connections net \<union> radius_edges ar pts r"
proof -
  let ?net0 = "net\<lparr>distance_conn_weights :=
      (if e then Some (replicate (num_osc net) (replicate (num_osc net) (d_zero ar))) else None)\<rparr>"
  have "num_osc ?net0 = length pts" "oscillator_locations ?net0 = pts"
    using assms by simp_all
  from connect_outer_loop [OF this, of ar "d_mul ar r r" e "d_zero ar"]
  obtain net1 mx1 where 1:
    "for_each [0..<length pts]
       (\<lambda>i. for_each [i + 1..<length pts] (connect_step ar (d_mul ar r r) e i)) (?net0, d_zero ar)
       = Inr (net1, mx1)"
    "num_osc net1 = length pts"
    "connections net1 = connections net \<union> radius_edges ar pts r"
    unfolding radius_edges_union by auto
  show ?thesis
  proof (cases e)
    case False
    then show ?thesis
      using 1 assms by (simp add: create_connections_def Let_def)
  next
    case True
    obtain mul sub where ms:
      "(if \<not> d_eq ar mx1 (d_max ar) then (d_sub ar mx1 (d_max ar), d_max ar)
        else (d_one ar, d_zero ar)) = (mul, sub)"
      by (cases "if \<not> d_eq ar mx1 (d_max ar) then (d_sub ar mx1 (d_max ar), d_max ar)
        else (d_one ar, d_zero ar)") auto
    obtain net2 where 2:
      "for_each [0..<num_osc net1]
         (\<lambda>i. for_each [i + 1..<num_osc net1] (normalize_step ar sub mul i)) net1 = Inr net2"
      "num_osc net2 = num_osc net1" "connections net2 = connections net1"
      using normalize_loops [of "[0..<num_osc net1]" "\<lambda>i. [i + 1..<num_osc net1]" ar sub mul net1]
      by auto
    show ?thesis
      using True 1 2 assms ms by (simp add: create_connections_def Let_def)
  qed
qed

lemma extend_fields [simp]:
  "num_osc (network.extend base ext) = num_osc base"
  "connections (network.extend base ext) = connections base"
  by (simp_all add: network.defs)

lemma oscillator_locations_extend [simp]:
  "oscillator_locations (network.extend base
      \<lparr>weight = w, oscillators = p, oscillator_locations = l, distance_conn_weights = d\<rparr>) = l"
  by (simp add: network.defs)

lemma syncnet_ctor_edges:
  "\<exists>net. syncnet_ctor ar m pts r e phases = Inr net \<and> num_osc net = length pts
     \<and> connections net = radius_edges ar pts r"
proof -
  let ?base = "network.extend (network_alloc m (length pts))
      \<lparr>weight = d_one ar, oscillators = phases, oscillator_locations = pts,
       distance_conn_weights = None\<rparr>"
  have "oscillator_locations ?base = pts" "num_osc ?base = length pts" by simp_all
  from create_connections_edges [OF this, of ar r e]
  show ?thesis by (simp add: syncnet_ctor_def network_ctor_none)
qed

subsection \<open>The constructor on each topology\<close>

lemma all_to_all_inner_loop:
  fixes net :: "'a network_scheme"
  assumes "row < n" "num_osc net = n"
  shows "\<exists>net'. for_each [row + 1..<n]
        (\<lambda>col net. and_then (set_connection row col net) (set_connection col row)) net = Inr net'
    \<and> num_osc net' = n
    \<and> connections net' = connections net \<union> (\<Union>col\<in>set [row + 1..<n]. {(row, col), (col, row)})"
proof (rule for_each_edges [where P = "\<lambda>s. num_osc s = n" and c = connections])
  fix col and s :: "'a network_scheme"
  assume "col \<in> set [row + 1..<n]" "num_osc s = n"
  then show "\<exists>s'. and_then (set_connection row col s) (set_connection col row) = Inr s'
      \<and> num_osc s' = n \<and> connections s' = connections s \<union> {(row, col), (col, row)}"
    using assms(1) by (auto simp: set_connection_def)
qed (rule assms(2))

lemma create_all_to_all_connections_edges:
  fixes net :: "'a network_scheme"
  shows "\<exists>net'. create_all_to_all_connections net = Inr net' \<and> num_osc net' = num_osc net
    \<and> connections net' = connections net
         \<union> {(a, b). a < num_osc net \<and> b < num_osc net \<and> a \<noteq> b}"
proof -
  let ?n = "num_osc net"
  let ?E = "\<lambda>row. \<Union>col\<in>set [row + 1..<?n]. {(row, col), (col, row)}"
  have "\<exists>net'. for_each [0..<?n] (\<lambda>row. for_each [row + 1..<?n]
        (\<lambda>col net. and_then (set_connection row col net) (set_connection col row))) net = Inr net'
    \<and> num_osc net' = ?n \<and> connections net' = connections net \<union> (\<Union>row\<in>set [0..<?n]. ?E row)"
  proof (rule for_each_edges [where P = "\<lambda>s. num_osc s = ?n" and c = connections and E = ?E])
    fix row and s :: "'a network_scheme"
    assume "row \<in> set [0..<?n]" "num_osc s = ?n"
    then show "\<exists>s'. for_each [row + 1..<?n]
        (\<lambda>col net. and_then (set_connection row col net) (set_connection col row)) s = Inr s'
      \<and> num_osc s' = ?n \<and> connections s' = connections s \<union> ?E row"
      using all_to_all_inner_loop [of row ?n s] by simp
  qed simp
  moreover have "(\<Union>row\<in>set [0..<?n]. ?E row) = {(a, b). a < ?n \<and> b < ?n \<and> a \<noteq> b}"
  proof -
    have "(a, b) \<in> (\<Union>row\<in>set [0..<?n]. ?E row) \<longleftrightarrow> a < ?n \<and> b < ?n \<and> a \<noteq> b" for a b
    proof
      assume "(a, b) \<in> (\<Union>row\<in>set [0..<?n]. ?E row)"
      then obtain row col where "row \<in> set [0..<?n]" "col \<in> set [row + 1..<?n]"
        "(a, b) \<in> {(row, col), (col, row)}" by blast
      then show "a < ?n \<and> b < ?n \<and> a \<noteq> b" by auto
    next
      assume ab: "a < ?n \<and> b < ?n \<and> a \<noteq> b"
      show "(a, b) \<in> (\<Union>row\<in>set [0..<?n]. ?E row)"
      proof (cases "a < b")
        case True
        then show ?thesis using ab by (intro UN_I [of a] UN_I [of b]) auto
      next
        case False
        then show ?thesis using ab by (intro UN_I [of b] UN_I [of a]) auto
      qed
    qed
    then show ?thesis by auto
  qed
  ultimately show ?thesis by (simp add: create_all_to_all_connections_def)
qed

lemma network_ctor_grid_four_raw:
  assumes "s * s < 2 ^ 32"
  shows "network_ctor m (s * s) GRID_FOUR =
    Inr ((network_alloc m (s * s))\<lparr>connections := Sigma {..<s * s} (grid_four_targets s (s * s))\<rparr>)"
  using create_grid_four_connections_raw [of "network_alloc m (s * s)" s] assms
  by (simp add: network_ctor_def)

lemma network_ctor_grid_four:
  assumes "s * s < 2 ^ 31"
  shows "network_ctor m (s * s) GRID_FOUR =
    Inr ((network_alloc m (s * s))\<lparr>connections := grid_four_edges s\<rparr>)"
  using create_grid_four_connections_eq [of "network_alloc m (s * s)" s] assms
  by (simp add: network_ctor_def)

lemma network_ctor_grid_eight_raw:
  assumes "s * s < 2 ^ 32"
  shows "network_ctor m (s * s) GRID_EIGHT =
    Inr ((network_alloc m (s * s))\<lparr>connections :=
      Sigma {..<s * s} (grid_four_targets s (s * s)) \<union> grid_diagonal_edges s\<rparr>)"
  using create_grid_eight_connections_raw [of "network_alloc m (s * s)" s] assms
  by (simp add: network_ctor_def)

lemma network_ctor_grid_eight:
  assumes "s * s < 2 ^ 31"
  shows "network_ctor m (s * s) GRID_EIGHT =
    Inr ((network_alloc m (s * s))\<lparr>connections := grid_four_edges s \<union> grid_diagonal_edges s\<rparr>)"
proof -
  have "s * s < 2 ^ 32" using assms by simp
  then show ?thesis
    using network_ctor_grid_eight_raw [of s m] grid_four_targets_edges [OF assms] by simp
qed

lemma network_ctor_grid_invalid:
  assumes "\<forall>s. s * s \<noteq> n"
  shows "network_ctor m n GRID_FOUR = Inl InvalidGridSize"
    and "network_ctor m n GRID_EIGHT = Inl InvalidGridSize"
proof -
  have "create_grid_four_connections (network_alloc m n) = Inl InvalidGridSize"
    using assms invalid_grid_iff [of n] by (simp add: create_grid_four_connections_def Let_def)
  then show "network_ctor m n GRID_FOUR = Inl InvalidGridSize"
    and "network_ctor m n GRID_EIGHT = Inl InvalidGridSize"
    by (simp_all add: network_ctor_def create_grid_eight_connections_def)
qed

lemma grid_four_targets_irrefl:
  assumes "s * s < 2 ^ 32" "i < s * s"
  shows "i \<notin> grid_four_targets s (s * s) i"
proof
  assume "i \<in> grid_four_targets s (s * s) i"
  then have "i + s = i \<or> i = i + s \<or> i + 1 = i \<or> i = i + 1"
    using grid_four_targets_subset [OF assms] by auto
  then have "s = 0" by auto
  then show False using assms(2) by simp
qed

lemma grid_diagonal_edges_irrefl: "(i, i) \<notin> grid_diagonal_edges s"
  by (auto simp: grid_diagonal_edges_def)

lemma list_bidir_edges_irrefl: "(i, i) \<notin> list_bidir_edges n"
  by (auto simp: list_bidir_edges_def)

lemma radius_edges_irrefl: "(i, i) \<notin> radius_edges ar pts r"
  by (auto simp: radius_edges_def)

lemma network_ctor_irrefl:
  assumes "n < 2 ^ 32" "network_ctor m n ct = Inr net"
  shows "num_osc net = n \<and> (i, i) \<notin> connections net"
proof (cases ct)
  case NONE
  then show ?thesis using assms by (auto simp: network_ctor_none)
next
  case ALL_TO_ALL
  then show ?thesis
    using assms create_all_to_all_connections_edges [of "network_alloc m n"]
    by (auto simp: network_ctor_def)
next
  case GRID_FOUR
  show ?thesis
  proof (cases "\<exists>s. s * s = n")
    case True
    then obtain s where s: "n = s * s" by auto
    then have b: "s * s < 2 ^ 32" using assms(1) by simp
    have "i < s * s \<Longrightarrow> i \<notin> grid_four_targets s (s * s) i"
      by (rule grid_four_targets_irrefl [OF b])
    then show ?thesis
      using assms(2) GRID_FOUR s network_ctor_grid_four_raw [OF b, of m] by auto
  next
    case False
    then show ?thesis using assms(2) GRID_FOUR network_ctor_grid_invalid(1) [of n m] by simp
  qed
next
  case GRID_EIGHT
  show ?thesis
  proof (cases "\<exists>s. s * s = n")
    case True
    then obtain s where s: "n = s * s" by auto
    then have b: "s * s < 2 ^ 32" using assms(1) by simp
    have "i < s * s \<Longrightarrow> i \<notin> grid_four_targets s (s * s) i"
      by (rule grid_four_targets_irrefl [OF b])
    then show ?thesis
      using assms(2) GRID_EIGHT s network_ctor_grid_eight_raw [OF b, of m]
        grid_diagonal_edges_irrefl [of i s] by auto
  next
    case False
    then show ?thesis using assms(2) GRID_EIGHT network_ctor_grid_invalid(2) [of n m] by simp
  qed
next
  case LIST_BIDIR
  then show ?thesis
    using assms network_ctor_list_bidir [OF assms(1), of m] list_bidir_edges_irrefl [of i n]
    by auto
next
  case CONN_OTHER
  then show ?thesis using assms by (simp add: network_ctor_def)
qed

lemma grid_diagonal_edge_first:
  assumes "2 \<le> s"
  shows "(0, s + 1) \<in> grid_diagonal_edges s"
proof -
  have "2 * s \<le> s * s" using assms by (intro mult_le_mono) simp_all
  then have "s + 1 < s * s" using assms by linarith
  moreover have "(s + 1) div s = 1 div s + 1" by (rule div_add_self1) (use assms in simp)
  then have "(s + 1) div s = 1" using assms by simp
  ultimately show ?thesis using assms by (simp add: grid_diagonal_edges_def)
qed

subsection \<open>Positions in the grid and the number of neighbours\<close>

lemma grid_position_facts:
  fixes s i :: nat
  assumes "0 < s" "i < s * s"
  shows "i div s \<noteq> 0 \<longleftrightarrow> s \<le> i"
    and "i div s \<noteq> s - 1 \<longleftrightarrow> i + s < s * s"
    and "i mod s \<noteq> 0 \<longleftrightarrow> 1 \<le> i \<and> (i - 1) div s = i div s"
    and "i mod s \<noteq> s - 1 \<longleftrightarrow> i + 1 < s * s \<and> (i + 1) div s = i div s"
proof -
  show "i div s \<noteq> 0 \<longleftrightarrow> s \<le> i"
    using assms(1) by (auto simp: div_eq_0_iff)
  have lt: "i div s < s" using assms by (simp add: less_mult_imp_div_less)
  have "(i + s) div s = i div s + 1" using assms(1) by simp
  moreover have "(i + s) div s < s \<longleftrightarrow> i + s < s * s"
    using assms(1) by (rule div_less_iff_less_mult)
  ultimately show "i div s \<noteq> s - 1 \<longleftrightarrow> i + s < s * s"
    using lt by auto
  show "i mod s \<noteq> 0 \<longleftrightarrow> 1 \<le> i \<and> (i - 1) div s = i div s"
  proof (cases i)
    case 0
    then show ?thesis by simp
  next
    case (Suc k)
    then show ?thesis by (simp add: div_Suc)
  qed
  have m: "i mod s \<noteq> s - 1 \<longleftrightarrow> Suc i mod s \<noteq> 0"
    using assms(1) by (auto simp: mod_Suc)
  have "i + 1 < s * s" if "Suc i mod s \<noteq> 0"
  proof (rule ccontr)
    assume "\<not> i + 1 < s * s"
    then have "Suc i = s * s" using assms(2) by simp
    then have "Suc i mod s = 0" by simp
    with that show False by simp
  qed
  then show "i mod s \<noteq> s - 1 \<longleftrightarrow> i + 1 < s * s \<and> (i + 1) div s = i div s"
    unfolding m by (auto simp: div_Suc)
qed

lemma grid_four_neighbour_set:
  assumes "0 < s" "i < s * s"
  shows "{k. (i, k) \<in> grid_four_edges s} =
    (if i div s \<noteq> 0 then {i - s} else {}) \<union> (if i div s \<noteq> s - 1 then {i + s} else {})
    \<union> (if i mod s \<noteq> 0 then {i - 1} else {}) \<union> (if i mod s \<noteq> s - 1 then {i + 1} else {})"
proof -
  note f = grid_position_facts [OF assms]
  have "(i, k) \<in> grid_four_edges s \<longleftrightarrow>
      (s \<le> i \<and> k = i - s) \<or> (i + s < s * s \<and> k = i + s)
      \<or> (1 \<le> i \<and> (i - 1) div s = i div s \<and> k = i - 1)
      \<or> (i + 1 < s * s \<and> (i + 1) div s = i div s \<and> k = i + 1)" for k
    using assms(2) by (auto simp: grid_four_edges_def)
  then show ?thesis
    unfolding f by auto
qed

lemma length_filter_upt:
  "length (filter P [0..<n]) = card {k. k < n \<and> P k}"
proof -
  have "card {k. k < n \<and> P k} = card (set (filter P [0..<n]))"
    by (rule arg_cong [of _ _ card]) auto
  also have "\<dots> = length (filter P [0..<n])"
    by (rule distinct_card) simp
  finally show ?thesis by simp
qed

lemma grid_four_neighbours_count:
  assumes "2 \<le> s" "i < s * s"
  shows "card {k. (i, k) \<in> grid_four_edges s} =
    (if i div s \<noteq> 0 then 1 else 0) + (if i div s \<noteq> s - 1 then 1 else 0)
    + (if i mod s \<noteq> 0 then 1 else 0) + (if i mod s \<noteq> s - 1 then 1 else 0)"
proof -
  have s0: "0 < s" using assms(1) by simp
  note f = grid_position_facts [OF s0 assms(2)]
  have u: "i div s \<noteq> 0 \<Longrightarrow> s \<le> i" and l: "i mod s \<noteq> 0 \<Longrightarrow> 1 \<le> i"
    using f by auto
  show ?thesis
    unfolding grid_four_neighbour_set [OF s0 assms(2)]
    using assms(1) u l by (auto simp: card_insert_if)
qed

lemma grid_four_edge_adjacent:
  assumes "0 < s" "(i, j) \<in> grid_four_edges s"
  shows "(j div s = i div s \<and> (j + 1 = i \<or> j = i + 1))
       \<or> (j mod s = i mod s \<and> (j div s + 1 = i div s \<or> j div s = i div s + 1))"
proof -
  have "j mod s = i mod s \<and> j div s + 1 = i div s" if "j + s = i"
    using that assms(1) by auto
  moreover have "j mod s = i mod s \<and> j div s = i div s + 1" if "j = i + s"
    using that assms(1) by auto
  ultimately show ?thesis
    using assms(2) unfolding grid_four_edges_def by blast
qed

lemma grid_four_no_wrap:
  assumes "2 \<le> s" "i < s * s" "i mod s = s - 1"
  shows "(i, i + 1) \<notin> grid_four_edges s"
proof -
  have "0 < s" using assms(1) by simp
  from grid_position_facts(4) [OF this assms(2)] assms(3)
  have "\<not> (i + 1 < s * s \<and> (i + 1) div s = i div s)" by simp
  then show ?thesis using assms(1) by (auto simp: grid_four_edges_def)
qed

section \<open>The claims\<close>

text \<open>
  Claim C1 (with weighting enabled the recorded squared distances are normalised by
  \<open>(d - dmin) / (dmax - dmin)\<close>, and when all pairwise distances are equal every weight is 0).
  The three unit vectors of space are pairwise at squared distance 2. The code never assigns
  \<open>minimum_distance\<close>, which stays \<open>DBL_MAX\<close>, so that every weight is
  \<open>(2 - DBL_MAX) / (2 - DBL_MAX) = 1\<close>, not 0.
\<close>

theorem equal_distances_weights:
  "map_sum id distance_conn_weights
     (syncnet_ctor real_arith m [[1, 0, 0], [0, 1, 0], [0, 0, 1]] r True phases)
   = Inr (Some [[0, 1, 1], [1, 0, 1], [1, 1, 0]])"
  using DBL_MAX_gt
  apply (simp add: syncnet_ctor_def network_ctor_none network_alloc_def
     network.defs create_connections_def real_arith_def)
  apply (simp add: upt_rec [of 0] upt_rec [of 1] upt_rec [of 2] upt_rec [of 3] upt_rec [of "Suc 0"]
    connect_step_def Let_def normalize_step_def
    euclidean_distance_sqrt_def set_connection_def set_weight_def)
  done

text \<open>
  Claim C2 (LIST_BIDIR is a symmetric path graph: for every \<open>0 \<le> i < n - 1\<close> both
  \<open>getConnection(i, i+1)\<close> and \<open>getConnection(i+1, i)\<close> hold). The loop of
  \<open>create_list_bidir_connections\<close> starts at index 1, so that oscillator 0 never gets its edge
  to oscillator 1: on three oscillators \<open>getConnection(0, 1)\<close> is false while
  \<open>getConnection(1, 0)\<close> is true.
\<close>

theorem list_bidir_first_edge_missing:
  "map_sum id (\<lambda>net. (get_connection net 0 1, get_connection net 1 0)) (network_ctor m 3 LIST_BIDIR)
     = Inr (Inr False, Inr True)"
  by (simp add: network_ctor_list_bidir get_connection_def list_bidir_edges_def)

text \<open>
  Claim C3, as amended: a network of \<open>n\<close> oscillators has \<open>n\<close> rows; if \<open>n\<close> exceeds the
  threshold the representation is the bitmap one and, when \<open>sizeof(unsigned int)\<close> (the number
  of bytes, 4) divides \<open>n\<close>, each row has \<open>ceil(n / sizeof(unsigned int))\<close> elements; otherwise
  the representation is the matrix one and each row has exactly \<open>n\<close> entries.
\<close>

theorem network_ctor_rows:
  assumes "network_ctor m n ct = Inr net"
  shows "length (osc_conn net) = n
    \<and> conn_representation net =
        (if m < n then BITMAP_CONN_REPRESENTATION else MATRIX_CONN_REPRESENTATION)
    \<and> (\<forall>row\<in>set (osc_conn net).
          (n \<le> m \<longrightarrow> length row = n)
        \<and> (m < n \<and> sizeof_unsigned_int dvd n \<longrightarrow> length row = ceil_div n sizeof_unsigned_int))"
proof -
  have "storage net = storage (network_alloc m n)"
    using assms unfolding network_ctor_def by (rule create_structure_storage)
  then have 1: "osc_conn net = replicate n (replicate (number_elements m n) 0)"
    and 2: "conn_representation net =
        (if m < n then BITMAP_CONN_REPRESENTATION else MATRIX_CONN_REPRESENTATION)"
    by (simp_all add: storage_def)
  have "sizeof_unsigned_int dvd n \<Longrightarrow> n div sizeof_unsigned_int = ceil_div n sizeof_unsigned_int"
    by (auto simp: sizeof_unsigned_int_def ceil_div_def elim!: dvdE)
  then show ?thesis
    unfolding 1 2 by (auto simp: number_elements_def)
qed

theorem network_ctor_rows_witness:
  "network_ctor 4096 4100 NONE = Inr (network_alloc 4096 4100)
   \<and> map length (osc_conn (network_alloc 4096 4100)) = replicate 4100 (ceil_div 4100 sizeof_unsigned_int)"
proof -
  have h: "network_ctor 4096 4100 NONE = Inr (network_alloc 4096 4100)"
    by (rule network_ctor_none)
  have d: "sizeof_unsigned_int dvd 4100" by (simp add: sizeof_unsigned_int_def)
  have "\<forall>row\<in>set (osc_conn (network_alloc 4096 4100)). length row = ceil_div 4100 sizeof_unsigned_int"
    using network_ctor_rows [OF h] d by simp
  then have "map length (osc_conn (network_alloc 4096 4100)) =
      map (\<lambda>row. ceil_div 4100 sizeof_unsigned_int) (osc_conn (network_alloc 4096 4100))"
    by (intro map_cong) simp_all
  then show ?thesis using h by (simp add: map_replicate_const)
qed

text \<open>
  Claim C3 as stated asks for \<open>ceil(n / wordBits)\<close> elements, with the number of bits of a
  machine word. With the threshold 4096 and 4100 oscillators each row has 1025 elements
  and not \<open>ceil(4100 / 32) = 129\<close>.
\<close>

theorem network_ctor_rows_counterexample:
  "map_sum id (\<lambda>net. map length (osc_conn net)) (network_ctor 4096 4100 NONE) = Inr (replicate 4100 1025)
   \<and> ceil_div 4100 word_bits = 129"
  by (simp add: network_ctor_none number_elements_def sizeof_unsigned_int_def ceil_div_def word_bits_def)




text \<open>
  Claim C5: for an oscillator \<open>index\<close> and a phase \<open>teta\<close>, \<open>phase_kuramoto\<close> returns
  \<open>weight / numNeighbors\<close> times the sum, over the neighbours \<open>k\<close> of \<open>index\<close>, of
  \<open>edgeWeight(index, k) * sin(phase(k) - teta)\<close>, where the edge weight is the stored one when
  the weight matrix is present and 1 otherwise, and \<open>numNeighbors\<close> is replaced by 1 when there
  is no neighbour: the call never divides by zero, and on an oscillator without neighbours it
  returns 0.
\<close>

theorem phase_kuramoto_formula:
  assumes "index < num_osc net" and "get_neighbors net index = Inr ns"
  shows "phase_kuramoto net t teta index =
      Inr (weight net / real (if length ns = 0 then 1 else length ns)
             * (\<Sum>k\<leftarrow>ns. edge_weight net index k * sin (oscillators net ! k - teta)),
           net)
    \<and> phase_kuramoto net t teta index \<noteq> Inl DivisionByZero
    \<and> (ns = [] \<longrightarrow> phase_kuramoto net t teta index = Inr (0, net))"
proof -
  have "ns = neighbours net index"
    using assms by (simp add: get_neighbors_eq)
  then have "phase_kuramoto net t teta index =
      Inr (weight net / real (if length ns = 0 then 1 else length ns)
             * (\<Sum>k\<leftarrow>ns. edge_weight net index k * sin (oscillators net ! k - teta)),
           net)"
    using phase_kuramoto_eq [OF assms(1), of t teta] by (simp add: mult.commute)
  then show ?thesis by auto
qed

theorem phase_kuramoto_formula_witness:
  "get_neighbors example_net 0 = Inr [1, 2]
   \<and> phase_kuramoto example_net 0 0 0 = Inr (3 / 4, example_net)
   \<and> get_neighbors example_net 3 = Inr []
   \<and> phase_kuramoto example_net 0 0 3 = Inr (0, example_net)"
proof -
  have i: "0 < num_osc example_net" "3 < num_osc example_net" by (simp_all add: example_net_def)
  have "phase_kuramoto example_net 0 0 0 = Inr (3 / 4, example_net)"
    using phase_kuramoto_formula [OF i(1) example_net_neighbors(1), of 0 0]
    by (simp add: edge_weight_def example_net_def)
  moreover have "phase_kuramoto example_net 0 0 3 = Inr (0, example_net)"
    using phase_kuramoto_formula [OF i(2) example_net_neighbors(2), of 0 0] by simp
  ultimately show ?thesis using example_net_neighbors by simp
qed

text \<open>
  Claim C6, as amended: for every perfect square \<open>n = s * s\<close> (an \<open>unsigned int\<close>) both grid
  constructions succeed, every GRID_FOUR edge is a GRID_EIGHT edge, and the edges that
  GRID_EIGHT adds are exactly the edges from a node to its diagonal neighbours (upper-left,
  upper-right, lower-left, lower-right) whose row index is exactly one above or one below
  the row index of the node; the GRID_EIGHT edges are a strict superset when the side is at
  least 2.
\<close>

theorem grid_eight_extends_grid_four:
  assumes "s * s < 2 ^ 32"
  shows "\<exists>net4 net8. network_ctor m (s * s) GRID_FOUR = Inr net4
    \<and> network_ctor m (s * s) GRID_EIGHT = Inr net8
    \<and> connections net4 \<subseteq> connections net8
    \<and> connections net8 = connections net4 \<union> grid_diagonal_edges s
    \<and> (2 \<le> s \<longrightarrow> connections net4 \<subset> connections net8)"
proof -
  let ?four = "Sigma {..<s * s} (grid_four_targets s (s * s))"
  have "(0, s + 1) \<notin> ?four" if "2 \<le> s"
  proof
    assume "(0, s + 1) \<in> ?four"
    then have "0 < s * s" "s + 1 \<in> grid_four_targets s (s * s) 0" by auto
    then have "s + 1 + s = 0 \<or> s + 1 = 0 + s \<or> s + 1 + 1 = 0 \<or> s + 1 = 0 + 1"
      using grid_four_targets_subset [OF assms, of 0] by auto
    then show False using that by simp
  qed
  then have "2 \<le> s \<longrightarrow> ?four \<subset> ?four \<union> grid_diagonal_edges s"
    using grid_diagonal_edge_first [of s] by auto
  then show ?thesis
    using network_ctor_grid_four_raw [OF assms, of m] network_ctor_grid_eight_raw [OF assms, of m]
    by simp
qed

theorem grid_eight_extends_grid_four_witness:
  "\<exists>net4 net8. network_ctor 4096 9 GRID_FOUR = Inr net4
    \<and> network_ctor 4096 9 GRID_EIGHT = Inr net8
    \<and> connections net4 \<subset> connections net8
    \<and> connections net8 = connections net4 \<union> grid_diagonal_edges 3"
  using grid_eight_extends_grid_four [of 3 4096] by auto

text \<open>
  Claim C6 as stated asks for a strict superset for every perfect square. On one oscillator
  GRID_FOUR and GRID_EIGHT both give the network without edges.
\<close>

theorem grid_eight_extends_grid_four_counterexample:
  "map_sum id connections (network_ctor 4096 1 GRID_FOUR) = Inr {}
   \<and> map_sum id connections (network_ctor 4096 1 GRID_EIGHT) = Inr {}"
proof -
  have "grid_four_edges 1 = {}" "grid_diagonal_edges 1 = {}"
    by (auto simp: grid_four_edges_def grid_diagonal_edges_def)
  then show ?thesis
    using network_ctor_grid_four [of 1 4096] network_ctor_grid_eight [of 1 4096] by simp
qed

text \<open>
  Claim C7, as amended: for every perfect square \<open>n = s * s\<close> with a side \<open>s\<close> of at least 2
  (and \<open>n\<close> at most \<open>INT_MAX\<close>), GRID_FOUR gives a node exactly 4 neighbours if it is interior,
  3 if it is on one edge of the grid and 2 if it is a corner; every neighbour is next to the
  node in its row, or in its column in the row above or below, and a node of the rightmost
  column has no edge to the next index, the leftmost node of the next row.
\<close>

theorem grid_four_neighbours:
  assumes "2 \<le> s" "s * s < 2 ^ 31" "i < s * s"
  shows "\<exists>net ns. network_ctor m (s * s) GRID_FOUR = Inr net \<and> get_neighbors net i = Inr ns
    \<and> (grid_interior s i \<longrightarrow> length ns = 4)
    \<and> (grid_border s i \<longrightarrow> length ns = 3)
    \<and> (grid_corner s i \<longrightarrow> length ns = 2)
    \<and> (\<forall>j\<in>set ns. (j div s = i div s \<and> (j + 1 = i \<or> j = i + 1))
           \<or> (j mod s = i mod s \<and> (j div s + 1 = i div s \<or> j div s = i div s + 1)))
    \<and> (i mod s = s - 1 \<longrightarrow> i + 1 \<notin> set ns)"
proof -
  let ?net = "(network_alloc m (s * s))\<lparr>connections := grid_four_edges s\<rparr>"
  let ?ns = "neighbours ?net i"
  have s0: "0 < s" using assms(1) by simp
  have ctor: "network_ctor m (s * s) GRID_FOUR = Inr ?net"
    by (rule network_ctor_grid_four [OF assms(2)])
  have nb: "get_neighbors ?net i = Inr ?ns"
    using assms(3) by (simp add: get_neighbors_eq)
  have set_ns: "set ?ns = {k. (i, k) \<in> grid_four_edges s}"
    by (auto simp: neighbours_def grid_four_edges_def)
  have "{k. k < s * s \<and> (i, k) \<in> grid_four_edges s} = {k. (i, k) \<in> grid_four_edges s}"
    by (auto simp: grid_four_edges_def)
  then have len: "length ?ns =
    (if i div s \<noteq> 0 then 1 else 0) + (if i div s \<noteq> s - 1 then 1 else 0)
    + (if i mod s \<noteq> 0 then 1 else 0) + (if i mod s \<noteq> s - 1 then 1 else 0)"
    using grid_four_neighbours_count [OF assms(1) assms(3)]
    by (simp add: neighbours_def length_filter_upt)
  have two: "0 \<noteq> s - 1" using assms(1) by simp
  have 1: "grid_interior s i \<longrightarrow> length ?ns = 4"
    unfolding len by (simp add: grid_interior_def on_row_boundary_def on_column_boundary_def)
  have 2: "grid_border s i \<longrightarrow> length ?ns = 3"
    unfolding len using two
    by (auto simp: grid_border_def on_row_boundary_def on_column_boundary_def)
  have 3: "grid_corner s i \<longrightarrow> length ?ns = 2"
    unfolding len using two
    by (auto simp: grid_corner_def on_row_boundary_def on_column_boundary_def)
  have 4: "\<forall>j\<in>set ?ns. (j div s = i div s \<and> (j + 1 = i \<or> j = i + 1))
           \<or> (j mod s = i mod s \<and> (j div s + 1 = i div s \<or> j div s = i div s + 1))"
    unfolding set_ns using grid_four_edge_adjacent [OF s0] by blast
  have 5: "i mod s = s - 1 \<longrightarrow> i + 1 \<notin> set ?ns"
    unfolding set_ns using grid_four_no_wrap [OF assms(1) assms(3)] by simp
  show ?thesis
    using ctor nb 1 2 3 4 5 by blast
qed

theorem grid_four_neighbours_witness:
  "\<exists>net. network_ctor 4096 9 GRID_FOUR = Inr net
     \<and> map_sum id length (get_neighbors net 4) = Inr 4
     \<and> map_sum id length (get_neighbors net 5) = Inr 3
     \<and> map_sum id length (get_neighbors net 2) = Inr 2
     \<and> map_sum id (\<lambda>ns. 3 \<in> set ns) (get_neighbors net 2) = Inr False"
proof -
  have p: "grid_interior 3 4" "grid_border 3 5" "grid_corner 3 2" "(2::nat) mod 3 = 3 - 1"
    by (simp_all add: grid_interior_def grid_border_def grid_corner_def
          on_row_boundary_def on_column_boundary_def)
  show ?thesis
    using grid_four_neighbours [of 3 4 4096] grid_four_neighbours [of 3 5 4096]
      grid_four_neighbours [of 3 2 4096] p
    by auto
qed

text \<open>
  Claim C7 as stated covers every perfect square. On one oscillator the only node is a
  corner of the grid and has no neighbour.
\<close>

theorem grid_four_neighbours_counterexample:
  "grid_corner 1 0
   \<and> and_then (network_ctor 4096 1 GRID_FOUR) (\<lambda>net. get_neighbors net 0) = Inr []"
proof -
  have "grid_four_edges 1 = {}"
    by (auto simp: grid_four_edges_def)
  then have "and_then (network_ctor 4096 1 GRID_FOUR) (\<lambda>net. get_neighbors net 0) = Inr []"
    using network_ctor_grid_four [of 1 4096] by (simp add: get_neighbors_eq neighbours_def)
  then show ?thesis
    by (simp add: grid_corner_def on_row_boundary_def on_column_boundary_def)
qed

text \<open>
  Claim C8: constructing a network with the topology GRID_FOUR or GRID_EIGHT fails with
  \<open>InvalidGridSize\<close> if and only if the number of oscillators (an \<open>unsigned int\<close>) is not a
  perfect square, and succeeds for every perfect square.
\<close>

theorem grid_ctor_invalid_iff:
  assumes "n < 2 ^ 32" and "ct = GRID_FOUR \<or> ct = GRID_EIGHT"
  shows "(network_ctor m n ct = Inl InvalidGridSize \<longleftrightarrow> (\<forall>s. s * s \<noteq> n))
       \<and> ((\<exists>s. s * s = n) \<longrightarrow> (\<exists>net. network_ctor m n ct = Inr net))"
proof (cases "\<exists>s. s * s = n")
  case True
  then obtain s where s: "n = s * s" by auto
  then have "s * s < 2 ^ 32" using assms(1) by simp
  then have "\<exists>net. network_ctor m n ct = Inr net"
    using assms(2) s network_ctor_grid_four_raw [of s m] network_ctor_grid_eight_raw [of s m]
    by auto
  then show ?thesis using True by auto
next
  case False
  then have "\<forall>s. s * s \<noteq> n" by simp
  then show ?thesis
    using assms(2) network_ctor_grid_invalid [of n m] by auto
qed

theorem grid_ctor_invalid_iff_witness:
  "network_ctor 4096 8 GRID_FOUR = Inl InvalidGridSize
   \<and> (\<exists>net. network_ctor 4096 9 GRID_EIGHT = Inr net)"
proof -
  have 8: "s * s \<noteq> 8" for s :: nat
  proof (cases "s \<le> 2")
    case True
    then have "s * s \<le> 2 * 2" by (intro mult_le_mono)
    then show ?thesis by simp
  next
    case False
    then have "3 * 3 \<le> s * s" by (intro mult_le_mono) simp_all
    then show ?thesis by simp
  qed
  have "(3::nat) * 3 = 9" by simp
  then have 9: "\<exists>s::nat. s * s = 9" by blast
  have "network_ctor 4096 8 GRID_FOUR = Inl InvalidGridSize"
    using grid_ctor_invalid_iff [of 8 GRID_FOUR 4096] 8 by simp
  moreover have "\<exists>net. network_ctor 4096 9 GRID_EIGHT = Inr net"
    using grid_ctor_invalid_iff [of 9 GRID_EIGHT 4096] 9 by simp
  ultimately show ?thesis by simp
qed

text \<open>
  Claim C9: no builder creates a self-loop. After the construction of a network of \<open>n\<close>
  oscillators (an \<open>unsigned int\<close>) with any topology, and after the construction of the
  radius-based network on any points, in any arithmetic of \<open>double\<close>, \<open>getConnection(i, i)\<close>
  is false for every index \<open>i\<close> below the number of oscillators.
\<close>

theorem no_self_loops:
  "(n < 2 ^ 32 \<and> network_ctor m n ct = Inr net \<and> i < n \<longrightarrow> get_connection net i i = Inr False)
   \<and> (syncnet_ctor ar m pts r e phases = Inr snet \<and> k < length pts
         \<longrightarrow> get_connection snet k k = Inr False)"
proof (intro conjI impI)
  assume "n < 2 ^ 32 \<and> network_ctor m n ct = Inr net \<and> i < n"
  then show "get_connection net i i = Inr False"
    using network_ctor_irrefl [of n m ct net i] by (simp add: get_connection_def)
next
  assume "syncnet_ctor ar m pts r e phases = Inr snet \<and> k < length pts"
  then show "get_connection snet k k = Inr False"
    using syncnet_ctor_edges [of ar m pts r e phases] radius_edges_irrefl [of k ar pts r]
    by (auto simp: get_connection_def)
qed

theorem no_self_loops_witness:
  "(\<exists>net. network_ctor 4096 9 GRID_EIGHT = Inr net \<and> get_connection net 4 4 = Inr False)
   \<and> (\<exists>snet. syncnet_ctor real_arith 4096 [[0], [1]] 1 True [0, 0] = Inr snet
         \<and> get_connection snet 0 0 = Inr False)"
proof -
  have "\<exists>net. network_ctor 4096 9 GRID_EIGHT = Inr net"
    using network_ctor_grid_eight_raw [of 3 4096] by simp
  then obtain net where 1: "network_ctor 4096 9 GRID_EIGHT = Inr net" by blast
  obtain snet where 2: "syncnet_ctor real_arith 4096 [[0], [1]] 1 True [0, 0] = Inr snet"
    using syncnet_ctor_edges [of real_arith 4096 "[[0], [1]]" 1 True "[0, 0]"] by blast
  have "get_connection net 4 4 = Inr False" "get_connection snet 0 0 = Inr False"
    using no_self_loops [where n = 9 and m = 4096 and ct = GRID_EIGHT and net = net and i = 4
        and ar = real_arith and pts = "[[0], [1]]" and r = 1 and e = True and phases = "[0, 0]"
        and snet = snet and k = 0]
      1 2
    by simp_all
  then show ?thesis using 1 2 by blast
qed

text \<open>
  Claim C10: for every oscillator index and phase argument, \<open>phase_kuramoto\<close> returns a value
  and leaves the whole network as it was: phases, connections and weights.
\<close>

theorem phase_kuramoto_observer:
  "index < num_osc net \<Longrightarrow> \<exists>v. phase_kuramoto net t teta index = Inr (v, net)"
  by (simp add: phase_kuramoto_eq)

theorem phase_kuramoto_observer_witness:
  "1 < num_osc example_net \<and> (\<exists>v. phase_kuramoto example_net 0 (pi / 2) 1 = Inr (v, example_net))"
proof -
  have i: "1 < num_osc example_net" by (simp add: example_net_def)
  show ?thesis using phase_kuramoto_observer [OF i, of 0 "pi / 2"] i by simp
qed

end
